theory Spec2Isabelle
  imports Main
begin

text \<open>
  A shallow embedding of \<^verbatim>\<open>src/src/asynclog.cpp\<close>, the core of an asynchronous logger: the
  per-thread input ring buffer, the output buffer in front of the writer, the formatters
  that write into it, and the file writer. Each definition follows the source function
  named in the text before it; line numbers refer to that file. The header \<^verbatim>\<open>dlog.hpp\<close>
  is not part of the sources, and what is taken from the specification instead is marked.
\<close>

section \<open>Common types\<close>

text \<open>
  Exceptions thrown by \<^verbatim>\<open>src/src/asynclog.cpp\<close> are values of type \<open>error\<close>; a
  function that can throw returns \<open>error + 'a\<close> with \<open>Inl\<close> for the exception. The
  constructor \<open>assertion_failed\<close> stands for an \<^verbatim>\<open>assert\<close> that aborts the process, and
  \<open>out_of_bounds\<close> for a store past the end of the output buffer, where the behaviour of
  the program is undefined.
\<close>

datatype error = runtime_error string | bad_alloc | assertion_failed | out_of_bounds

text \<open>
  The file starts with \<^verbatim>\<open>#define NDEBUG\<close> (line 1), before \<^verbatim>\<open>cassert\<close> is included:
  every \<^verbatim>\<open>assert\<close> of the translation unit expands to nothing and every
  \<^verbatim>\<open>#ifndef NDEBUG\<close> block is dropped.
\<close>

definition NDEBUG :: bool where
  "NDEBUG = True"

definition TLS_INPUT_BUFFER_SIZE :: nat where
  "TLS_INPUT_BUFFER_SIZE = 8 * 4096"

text \<open>
  \<^verbatim>\<open>std::size_t\<close> is a 64-bit unsigned integer. An expression that mixes a
  \<^verbatim>\<open>ptrdiff_t\<close> with a \<^verbatim>\<open>size_t\<close> is evaluated in \<^verbatim>\<open>size_t\<close>, that is modulo
  \<open>2 ^ 64\<close>; \<open>to_size_t\<close> is that conversion.
\<close>

definition to_size_t :: "int \<Rightarrow> int" where
  "to_size_t x = x mod 2 ^ 64"

section \<open>The input buffer\<close>

text \<open>
  Modelled from the spec: \<^verbatim>\<open>dispatch_function_t*\<close> and \<^verbatim>\<open>WRAPAROUND_MARKER\<close> are declared
  in \<^verbatim>\<open>dlog.hpp\<close>, which is not part of the sources. Section 4.6 of the specification says
  that the first pointer-sized word of a frame is either the address of a decoder or the
  distinguished value \<^verbatim>\<open>WRAPAROUND_MARKER\<close>, which never collides with a decoder.
\<close>

datatype dispatch_ptr = WRAPAROUND_MARKER | Decoder nat

text \<open>
  Pointers into the ring are addresses (\<open>int\<close>); pointer differences are \<^verbatim>\<open>ptrdiff_t\<close>
  values, also \<open>int\<close>. \<open>memory\<close> gives the pointer-sized word stored at an address of the
  ring. \<open>g_shared_input_queue\<close> is the global queue of commit extents, restricted to the
  extents of this buffer: each entry is the \<^verbatim>\<open>pcommit_end\<close> snapshot of one extent.
\<close>

record input_buffer =
  pbegin :: int
  pinput_start :: int
  pinput_end :: int
  pcommit_end :: int
  memory :: "int \<Rightarrow> dispatch_ptr"
  g_shared_input_queue :: "int list"

text \<open>
  \<^verbatim>\<open>allocate_buffer\<close> (lines 371-379): the argument is what \<^verbatim>\<open>posix_memalign\<close> delivers,
  \<open>None\<close> when it fails, otherwise the address of a block of \<^verbatim>\<open>TLS_INPUT_BUFFER_SIZE\<close>
  bytes aligned by \<^verbatim>\<open>FRAME_ALIGNMENT\<close>.
\<close>

definition allocate_buffer :: "int option \<Rightarrow> error + int" where
  "allocate_buffer r =
     (case r of
        None \<Rightarrow> Inl (runtime_error ''cannot allocate input frame'')
      | Some pbuffer \<Rightarrow> Inr pbuffer)"

text \<open>
  The constructor (lines 351-357). \<open>m\<close> is the content of the freshly allocated block,
  about which nothing is known.
\<close>

definition input_buffer_ctor :: "int option \<Rightarrow> (int \<Rightarrow> dispatch_ptr) \<Rightarrow> error + input_buffer" where
  "input_buffer_ctor r m =
     (case allocate_buffer r of
        Inl e \<Rightarrow> Inl e
      | Inr p \<Rightarrow>
          Inr \<lparr>pbegin = p, pinput_start = p, pinput_end = p, pcommit_end = p,
               memory = m, g_shared_input_queue = []\<rparr>)"

text \<open>
  Modelled from the spec: \<^verbatim>\<open>is_aligned\<close> and \<^verbatim>\<open>FRAME_ALIGNMENT\<close> are declared in
  \<^verbatim>\<open>dlog.hpp\<close>, which is not part of the sources. The specification calls a position
  aligned when it is a multiple of \<^verbatim>\<open>FRAME_ALIGNMENT\<close>; the alignment is a parameter here.
\<close>

definition is_aligned :: "int \<Rightarrow> nat \<Rightarrow> bool" where
  "is_aligned p alignment = (p mod int alignment = 0)"

text \<open>
  \<^verbatim>\<open>advance_frame_pointer\<close> (lines 392-402). Both \<^verbatim>\<open>assert\<close>s are compiled out.
  \<^verbatim>\<open>remaining\<close> has type \<^verbatim>\<open>size_t\<close>.
\<close>

definition advance_frame_pointer :: "input_buffer \<Rightarrow> int \<Rightarrow> nat \<Rightarrow> int" where
  "advance_frame_pointer ib p distance =
     (let p' = p + int distance;
          remaining = to_size_t (int TLS_INPUT_BUFFER_SIZE - (p' - pbegin ib))
      in if remaining = 0 then pbegin ib else p')"

text \<open>
  Modelled from the spec: \<^verbatim>\<open>input_buffer::commit\<close> is defined inline in \<^verbatim>\<open>dlog.hpp\<close>,
  which is not part of the sources. Section 4.3 of the specification: it publishes
  \<open>commit_end := input_end\<close> and enqueues the commit extent \<open>(self, commit_end)\<close> onto the
  shared queue.
\<close>

definition commit :: "input_buffer \<Rightarrow> input_buffer" where
  "commit ib =
     ib\<lparr>pcommit_end := pinput_end ib,
        g_shared_input_queue := g_shared_input_queue ib @ [pinput_end ib]\<rparr>"

text \<open>
  \<^verbatim>\<open>wait_input_consumed\<close> (lines 522-540). The result is the state in which
  \<^verbatim>\<open>input_consumed_event_.wait()\<close> is entered; what the consumer does while the producer
  waits is not part of this function.
\<close>

definition wait_input_consumed :: "input_buffer \<Rightarrow> input_buffer" where
  "wait_input_consumed ib =
     (if pcommit_end ib = pinput_start ib then commit ib else ib)"

text \<open>
  One pass through the body of the \<^verbatim>\<open>while(true)\<close> loop of \<^verbatim>\<open>allocate_input_frame\<close>
  (lines 423-484): \<open>(Some p, ib')\<close> when the pass returns the frame pointer \<open>p\<close>,
  \<open>(None, ib')\<close> when it ends in \<^verbatim>\<open>wait_input_consumed\<close>, with \<open>ib'\<close> the state in which
  the wait is entered. \<^verbatim>\<open>free\<close> is a \<^verbatim>\<open>ptrdiff_t\<close>; in \<^verbatim>\<open>size < free\<close> it is positive, so
  its conversion to \<^verbatim>\<open>size_t\<close> keeps its value. \<^verbatim>\<open>free1\<close> and \<^verbatim>\<open>free2\<close> are \<^verbatim>\<open>size_t\<close>.
\<close>

definition allocate_input_frame_pass :: "input_buffer \<Rightarrow> nat \<Rightarrow> int option \<times> input_buffer" where
  "allocate_input_frame_pass ib sz =
     (let pinput_end' = pinput_end ib;
          pinput_start' = pinput_start ib;
          free = pinput_start' - pinput_end'
      in if free > 0 then
           if int sz < free then
             (Some pinput_end', ib\<lparr>pinput_end := advance_frame_pointer ib pinput_end' sz\<rparr>)
           else (None, wait_input_consumed ib)
         else
           let free1 = to_size_t (int TLS_INPUT_BUFFER_SIZE - (pinput_end' - pbegin ib))
           in if int sz < free1 then
                (Some pinput_end', ib\<lparr>pinput_end := advance_frame_pointer ib pinput_end' sz\<rparr>)
              else
                let free2 = to_size_t (pinput_start' - pbegin ib)
                in if int sz < free2 then
                     (Some (pbegin ib),
                      ib\<lparr>memory := (memory ib)(pinput_end ib := WRAPAROUND_MARKER),
                         pinput_end := advance_frame_pointer ib (pbegin ib) sz\<rparr>)
                   else (None, wait_input_consumed ib))"

text \<open>
  \<^verbatim>\<open>allocate_input_frame\<close> (lines 404-486). The loop waits for the consumer, which is
  another thread: the first argument lists the values of \<^verbatim>\<open>pinput_start_\<close> that the
  producer finds when its successive waits return. The result is \<open>None\<close> when the
  producer is still waiting after the last of them, that is when the call does not return.
\<close>

fun allocate_input_frame :: "int list \<Rightarrow> input_buffer \<Rightarrow> nat \<Rightarrow> (int \<times> input_buffer) option" where
  "allocate_input_frame [] ib sz =
     (case allocate_input_frame_pass ib sz of
        (Some p, ib') \<Rightarrow> Some (p, ib')
      | (None, ib') \<Rightarrow> None)"
| "allocate_input_frame (start # consumed) ib sz =
     (case allocate_input_frame_pass ib sz of
        (Some p, ib') \<Rightarrow> Some (p, ib')
      | (None, ib') \<Rightarrow> allocate_input_frame consumed (ib'\<lparr>pinput_start := start\<rparr>) sz)"

text \<open>\<^verbatim>\<open>input_start\<close> (lines 488-491).\<close>

definition input_start :: "input_buffer \<Rightarrow> int" where
  "input_start ib = pinput_start ib"

text \<open>
  \<^verbatim>\<open>discard_input_frame\<close> (lines 493-504); signalling the event changes no field.
\<close>

definition discard_input_frame :: "input_buffer \<Rightarrow> nat \<Rightarrow> int \<times> input_buffer" where
  "discard_input_frame ib sz =
     (let p = advance_frame_pointer ib (pinput_start ib) sz
      in (p, ib\<lparr>pinput_start := p\<rparr>))"

text \<open>
  \<^verbatim>\<open>wraparound\<close> (lines 506-515). The marker check stands inside
  \<^verbatim>\<open>#ifndef NDEBUG ... #endif\<close>.
\<close>

definition wraparound :: "input_buffer \<Rightarrow> error + (int \<times> input_buffer)" where
  "wraparound ib =
     (if \<not> NDEBUG \<and> memory ib (pinput_start ib) \<noteq> WRAPAROUND_MARKER
      then Inl assertion_failed
      else Inr (pbegin ib, ib\<lparr>pinput_start := pbegin ib\<rparr>))"

text \<open>
  The specification's wording of the allocation algorithm (section 4.3, steps 2 to 4 and
  ``Blocking while full''), written down independently of the source.
\<close>

definition in_ring :: "input_buffer \<Rightarrow> int \<Rightarrow> bool" where
  "in_ring ib p = (pbegin ib \<le> p \<and> p < pbegin ib + int TLS_INPUT_BUFFER_SIZE)"

definition spec_advance :: "input_buffer \<Rightarrow> int \<Rightarrow> nat \<Rightarrow> int" where
  "spec_advance ib p sz =
     (if p + int sz = pbegin ib + int TLS_INPUT_BUFFER_SIZE then pbegin ib else p + int sz)"

definition spec_block :: "input_buffer \<Rightarrow> input_buffer" where
  "spec_block ib = (if pcommit_end ib = pinput_start ib then commit ib else ib)"

definition spec_allocation_step :: "input_buffer \<Rightarrow> nat \<Rightarrow> int option \<times> input_buffer" where
  "spec_allocation_step ib sz =
     (if pinput_start ib > pinput_end ib then
        if int sz < pinput_start ib - pinput_end ib
        then (Some (pinput_end ib), ib\<lparr>pinput_end := spec_advance ib (pinput_end ib) sz\<rparr>)
        else (None, spec_block ib)
      else
        let free_tail = int TLS_INPUT_BUFFER_SIZE - (pinput_end ib - pbegin ib);
            free_head = pinput_start ib - pbegin ib
        in if int sz < free_tail
           then (Some (pinput_end ib), ib\<lparr>pinput_end := spec_advance ib (pinput_end ib) sz\<rparr>)
           else if int sz < free_head
           then (Some (pbegin ib),
                 ib\<lparr>memory := (memory ib)(pinput_end ib := WRAPAROUND_MARKER),
                    pinput_end := pbegin ib + int sz\<rparr>)
           else (None, spec_block ib))"

fun spec_allocate :: "int list \<Rightarrow> input_buffer \<Rightarrow> nat \<Rightarrow> (int \<times> input_buffer) option" where
  "spec_allocate [] ib sz =
     (case spec_allocation_step ib sz of
        (Some p, ib') \<Rightarrow> Some (p, ib')
      | (None, ib') \<Rightarrow> None)"
| "spec_allocate (start # consumed) ib sz =
     (case spec_allocation_step ib sz of
        (Some p, ib') \<Rightarrow> Some (p, ib')
      | (None, ib') \<Rightarrow> spec_allocate consumed (ib'\<lparr>pinput_start := start\<rparr>) sz)"

text \<open>
  Sequences of operations on one input buffer. The producer and the consumer are two
  threads; an interleaving of their steps is a list of operations. \<open>Allocate sz\<close> is one
  pass of the loop of \<^verbatim>\<open>allocate_input_frame\<close>: a call that has to wait is a pass that
  ends in \<^verbatim>\<open>wait_input_consumed\<close>, followed later in the list, after operations of the
  consumer, by the pass that retries.
\<close>

datatype operation = Allocate nat | Commit | Discard nat | Wraparound

fun exec :: "input_buffer \<Rightarrow> operation \<Rightarrow> input_buffer" where
  "exec ib (Allocate sz) = snd (allocate_input_frame_pass ib sz)"
| "exec ib Commit = commit ib"
| "exec ib (Discard sz) = snd (discard_input_frame ib sz)"
| "exec ib Wraparound = (case wraparound ib of Inl e \<Rightarrow> ib | Inr (p, ib') \<Rightarrow> ib')"

fun run :: "input_buffer \<Rightarrow> operation list \<Rightarrow> input_buffer" where
  "run ib [] = ib"
| "run ib (op # ops) = run (exec ib op) ops"

text \<open>
  What the source requires of the arguments: \<^verbatim>\<open>advance_frame_pointer\<close> asserts
  \<^verbatim>\<open>is_aligned(distance)\<close> and its comment says that the distance must never move the
  pointer past the end of the buffer (an input frame is never discontinuous); the
  specification says that the size given to \<^verbatim>\<open>allocate_input_frame\<close> is rounded up to a
  multiple of \<^verbatim>\<open>FRAME_ALIGNMENT\<close> by the caller. \<open>fa\<close> is \<^verbatim>\<open>FRAME_ALIGNMENT\<close>.
\<close>

fun admissible :: "nat \<Rightarrow> input_buffer \<Rightarrow> operation \<Rightarrow> bool" where
  "admissible fa ib (Allocate sz) = is_aligned (int sz) fa"
| "admissible fa ib Commit = True"
| "admissible fa ib (Discard sz) =
     (is_aligned (int sz) fa \<and> pinput_start ib + int sz \<le> pbegin ib + int TLS_INPUT_BUFFER_SIZE)"
| "admissible fa ib Wraparound = True"

fun admissible_run :: "nat \<Rightarrow> input_buffer \<Rightarrow> operation list \<Rightarrow> bool" where
  "admissible_run fa ib [] = True"
| "admissible_run fa ib (op # ops) = (admissible fa ib op \<and> admissible_run fa (exec ib op) ops)"

definition position_ok :: "nat \<Rightarrow> input_buffer \<Rightarrow> int \<Rightarrow> bool" where
  "position_ok fa ib p = (is_aligned p fa \<and> in_ring ib p)"

definition positions_ok :: "nat \<Rightarrow> input_buffer \<Rightarrow> bool" where
  "positions_ok fa ib =
     (is_aligned (pbegin ib) fa \<and> position_ok fa ib (pinput_start ib) \<and>
      position_ok fa ib (pinput_end ib) \<and> position_ok fa ib (pcommit_end ib))"

text \<open>
  The ring holds nothing but unpublished data: everything published has been drained
  (\<open>commit_end = input_start\<close>) and something has been allocated since the last commit.
\<close>

definition only_unpublished_data :: "input_buffer \<Rightarrow> bool" where
  "only_unpublished_data ib =
     (pcommit_end ib = pinput_start ib \<and> pinput_end ib \<noteq> pcommit_end ib)"

text \<open>States used as concrete inputs below.\<close>

definition unmarked_buffer :: input_buffer where
  "unmarked_buffer =
     \<lparr>pbegin = 4096, pinput_start = 4112, pinput_end = 4144, pcommit_end = 4144,
      memory = (\<lambda>a. Decoder 0), g_shared_input_queue = [4144]\<rparr>"

definition undrained_buffer :: input_buffer where
  "undrained_buffer =
     \<lparr>pbegin = 4096, pinput_start = 4112, pinput_end = 4144, pcommit_end = 4112,
      memory = (\<lambda>a. Decoder 0), g_shared_input_queue = [4112]\<rparr>"

definition tail_buffer :: input_buffer where
  "tail_buffer =
     \<lparr>pbegin = 4096, pinput_start = 4160, pinput_end = 36848, pcommit_end = 36848,
      memory = (\<lambda>a. Decoder 0), g_shared_input_queue = [36848]\<rparr>"

definition fresh_buffer :: input_buffer where
  "fresh_buffer =
     \<lparr>pbegin = 4096, pinput_start = 4096, pinput_end = 4096, pcommit_end = 4096,
      memory = (\<lambda>a. Decoder 0), g_shared_input_queue = []\<rparr>"

section \<open>The output buffer\<close>

datatype Result = SUCCESS | ERROR_TRY_LATER | ERROR_GIVE_UP

text \<open>
  Pointers into the output buffer are offsets from \<^verbatim>\<open>pbuffer_\<close>: \<open>pbuffer\<close> is the content
  of the memory from \<^verbatim>\<open>pbuffer_\<close> on, \<open>pbuffer_end\<close> is \<^verbatim>\<open>pbuffer_end_ - pbuffer_\<close> (the
  capacity) and \<open>pcommit_end_out\<close> is \<^verbatim>\<open>pcommit_end_ - pbuffer_\<close>.

  The writer is an object behind the abstract interface \<^verbatim>\<open>writer\<close>; the output buffer
  only calls its \<^verbatim>\<open>write\<close>. \<open>pwriter ob k\<close> is the \<^verbatim>\<open>Result\<close> that the writer returns from
  the call number \<open>k\<close> (counted from 0), and \<open>writes\<close> records the calls made so far: the
  bytes handed over and the result returned.
\<close>

record output_buffer =
  pwriter :: "nat \<Rightarrow> Result"
  writes :: "(string \<times> Result) list"
  pbuffer :: "nat \<Rightarrow> char"
  pcommit_end_out :: nat
  pbuffer_end :: nat

text \<open>
  The constructor (lines 140-151): \<open>m\<close> is the content of the block that \<^verbatim>\<open>malloc\<close>
  returns. \<^verbatim>\<open>madvise\<close> changes no field.
\<close>

definition output_buffer_ctor :: "(nat \<Rightarrow> Result) \<Rightarrow> nat \<Rightarrow> (nat \<Rightarrow> char) \<Rightarrow> output_buffer" where
  "output_buffer_ctor w max_capacity m =
     \<lparr>pwriter = w, writes = [], pbuffer = m, pcommit_end_out = 0, pbuffer_end = max_capacity\<rparr>"

text \<open>The bytes of \<open>[pbuffer_, pcommit_end_)\<close>.\<close>

definition pending :: "output_buffer \<Rightarrow> string" where
  "pending ob = map (pbuffer ob) [0..<pcommit_end_out ob]"

text \<open>\<^verbatim>\<open>flush\<close> (lines 171-177). The value that \<^verbatim>\<open>write\<close> returns is not used.\<close>

definition flush :: "output_buffer \<Rightarrow> output_buffer" where
  "flush ob =
     ob\<lparr>writes := writes ob @ [(pending ob, pwriter ob (length (writes ob)))],
        pcommit_end_out := 0\<rparr>"

text \<open>
  \<^verbatim>\<open>reserve\<close> (lines 158-169). \<^verbatim>\<open>pbuffer_end_ - pcommit_end_\<close> is a \<^verbatim>\<open>ptrdiff_t\<close> compared
  with a \<^verbatim>\<open>size_t\<close>.
\<close>

definition reserve :: "output_buffer \<Rightarrow> nat \<Rightarrow> error + (nat \<times> output_buffer)" where
  "reserve ob sz =
     (if to_size_t (int (pbuffer_end ob) - int (pcommit_end_out ob)) < int sz then
        let ob' = flush ob
        in if to_size_t (int (pbuffer_end ob')) < int sz then Inl bad_alloc
           else Inr (pcommit_end_out ob', ob')
      else Inr (pcommit_end_out ob, ob))"

text \<open>
  Modelled from the spec: \<^verbatim>\<open>output_buffer::commit\<close> is defined inline in \<^verbatim>\<open>dlog.hpp\<close>,
  which is not part of the sources. Section 4.2 of the specification: \<open>commit(n)\<close>
  advances \<open>commit_end\<close> by \<open>n\<close>.
\<close>

definition output_buffer_commit :: "output_buffer \<Rightarrow> nat \<Rightarrow> output_buffer" where
  "output_buffer_commit ob n = ob\<lparr>pcommit_end_out := pcommit_end_out ob + n\<rparr>"

text \<open>\<^verbatim>\<open>std::memcpy(p, s, len)\<close> into the memory of the output buffer.\<close>

definition memcpy :: "output_buffer \<Rightarrow> nat \<Rightarrow> string \<Rightarrow> output_buffer" where
  "memcpy ob p s =
     ob\<lparr>pbuffer := (\<lambda>a. if p \<le> a \<and> a < p + length s then s ! (a - p) else pbuffer ob a)\<rparr>"

text \<open>
  The class invariant of the output buffer: the cursor lies inside the buffer, and the
  capacity is a \<^verbatim>\<open>size_t\<close>.
\<close>

definition well_formed :: "output_buffer \<Rightarrow> bool" where
  "well_formed ob = (pcommit_end_out ob \<le> pbuffer_end ob \<and> pbuffer_end ob < 2 ^ 64)"

text \<open>
  The bytes handed to the writer so far, the bytes of the calls that the writer answered
  with \<^verbatim>\<open>SUCCESS\<close>, and the bytes committed so far (handed over or still in the buffer).
\<close>

definition handed :: "output_buffer \<Rightarrow> string" where
  "handed ob = concat (map fst (writes ob))"

definition delivered :: "output_buffer \<Rightarrow> string" where
  "delivered ob = concat (map fst (filter (\<lambda>c. snd c = SUCCESS) (writes ob)))"

definition committed :: "output_buffer \<Rightarrow> string" where
  "committed ob = handed ob @ pending ob"

text \<open>\<^verbatim>\<open>formatter::format\<close> (lines 576-582); \<open>pformat\<close> is the string up to its NUL.\<close>

definition formatter_format :: "output_buffer \<Rightarrow> string \<Rightarrow> error + output_buffer" where
  "formatter_format ob pformat =
     (let len = length pformat
      in case reserve ob len of
           Inl e \<Rightarrow> Inl e
         | Inr (p, ob') \<Rightarrow> Inr (output_buffer_commit (memcpy ob' p pformat) len))"

text \<open>\<^verbatim>\<open>formatter::append_percent\<close> (lines 584-589).\<close>

definition append_percent :: "output_buffer \<Rightarrow> error + output_buffer" where
  "append_percent ob =
     (case reserve ob 1 of
        Inl e \<Rightarrow> Inl e
      | Inr (p, ob') \<Rightarrow> Inr (output_buffer_commit (memcpy ob' p [CHR ''%'']) 1))"

text \<open>
  The consumer (\<^verbatim>\<open>output_worker\<close>, lines 541-573), as far as the output buffer is concerned.
  What the loop does on the input side (popping the queue, reading the dispatch pointer,
  \<^verbatim>\<open>wraparound\<close>, \<^verbatim>\<open>discard_input_frame\<close>) does not touch the output buffer and is left out:
  each commit extent that the worker pops is given as the list of its frames, and each
  frame as the bytes that its dispatch function formats (through \<^verbatim>\<open>reserve\<close>, \<^verbatim>\<open>memcpy\<close>
  and \<^verbatim>\<open>commit\<close>, as \<^verbatim>\<open>formatter::format\<close> does). \<open>dispatch_frames\<close> is the inner loop
  over the frames of one extent; \<open>output_worker\<close> is the outer loop, which flushes after
  each extent and ends with the shutdown request behind the last extent.
\<close>

fun dispatch_frames :: "output_buffer \<Rightarrow> string list \<Rightarrow> error + output_buffer" where
  "dispatch_frames ob [] = Inr ob"
| "dispatch_frames ob (frame # frames) =
     (case formatter_format ob frame of
        Inl e \<Rightarrow> Inl e
      | Inr ob' \<Rightarrow> dispatch_frames ob' frames)"

fun output_worker :: "output_buffer \<Rightarrow> string list list \<Rightarrow> error + output_buffer" where
  "output_worker ob [] = Inr ob"
| "output_worker ob (ce # extents) =
     (case dispatch_frames ob ce of
        Inl e \<Rightarrow> Inl e
      | Inr ob' \<Rightarrow> output_worker (flush ob') extents)"

text \<open>
  Scenario S5 of the specification: the writer returns \<^verbatim>\<open>ERROR_TRY_LATER\<close> five times,
  then \<^verbatim>\<open>SUCCESS\<close>.
\<close>

definition backpressure_writer :: "nat \<Rightarrow> Result" where
  "backpressure_writer k = (if k < 5 then ERROR_TRY_LATER else SUCCESS)"

definition always_success :: "nat \<Rightarrow> Result" where
  "always_success k = SUCCESS"

definition blank :: "nat \<Rightarrow> char" where
  "blank a = CHR 0x00"

section \<open>The formatters\<close>

text \<open>
  A \<^verbatim>\<open>char const*\<close> into a format string is the list of the characters from the pointer
  up to the terminating NUL; \<open>deref\<close> is \<^verbatim>\<open>*p\<close>, and \<open>tl\<close> is \<^verbatim>\<open>p + 1\<close> where \<^verbatim>\<open>*p\<close> is not
  the NUL.
\<close>

definition deref :: "string \<Rightarrow> char" where
  "deref p = (case p of [] \<Rightarrow> CHR 0x00 | c # cs \<Rightarrow> c)"

text \<open>
  \<^verbatim>\<open>ostr << v\<close> on a fresh \<^verbatim>\<open>std::ostringstream\<close>, for a value of an integer type: the
  decimal digits of the value, most significant first, after a minus sign when the value
  is negative.
\<close>

fun decimal :: "nat \<Rightarrow> string" where
  "decimal n =
     (if n < 10 then [''0123456789'' ! n]
      else decimal (n div 10) @ [''0123456789'' ! (n mod 10)])"

declare decimal.simps [simp del]

definition ostream_int :: "int \<Rightarrow> string" where
  "ostream_int v = (if v < 0 then CHR ''-'' # decimal (nat (- v)) else decimal (nat v))"

text \<open>
  \<^verbatim>\<open>generic_format_int\<close> (lines 181-203). The result holds the returned \<^verbatim>\<open>bool\<close>, the
  format pointer (passed by reference) and the output buffer after the call.
\<close>

definition generic_format_int ::
    "output_buffer \<Rightarrow> string \<Rightarrow> int \<Rightarrow> error + (bool \<times> string \<times> output_buffer)" where
  "generic_format_int ob pformat v =
     (let f = deref pformat
      in if f = CHR ''d'' then
           let s = ostream_int v
           in case reserve ob (length s) of
                Inl e \<Rightarrow> Inl e
              | Inr (p, ob') \<Rightarrow>
                  Inr (True, tl pformat, output_buffer_commit (memcpy ob' p s) (length s))
         else if f = CHR ''x'' then Inr (False, pformat, ob)
         else if f = CHR ''b'' then Inr (False, pformat, ob)
         else Inr (False, pformat, ob))"



text \<open>
  \<^verbatim>\<open>std::strchr(s, c)\<close>: the pointer to the first occurrence of \<open>c\<close>, the terminating NUL
  included, or null.
\<close>

fun strchr :: "string \<Rightarrow> char \<Rightarrow> string option" where
  "strchr [] c = (if c = CHR 0x00 then Some [] else None)"
| "strchr (x # xs) c = (if x = c then Some (x # xs) else strchr xs c)"

lemma strchr_length: "strchr s c = Some r \<Longrightarrow> length r \<le> length s"
  by (induction s) (auto split: if_splits)

lemma strchr_percent: "strchr s CHR ''%'' = Some r \<Longrightarrow> r \<noteq> [] \<and> hd r = CHR ''%''"
  by (induction s) (auto split: if_splits)

text \<open>
  \<^verbatim>\<open>formatter::next_specifier\<close> (lines 591-614). \<^verbatim>\<open>pspecifier - pformat\<close> is the
  difference of the two pointers into the same string; the result is \<open>None\<close> for
  \<^verbatim>\<open>nullptr\<close>.
\<close>

function next_specifier ::
    "output_buffer \<Rightarrow> string \<Rightarrow> error + (string option \<times> output_buffer)" where
  "next_specifier ob pformat =
     (case strchr pformat CHR ''%'' of
        None \<Rightarrow>
          (case formatter_format ob pformat of
             Inl e \<Rightarrow> Inl e
           | Inr ob' \<Rightarrow> Inr (None, ob'))
      | Some pspecifier \<Rightarrow>
          (let len = length pformat - length pspecifier
           in case reserve ob len of
                Inl e \<Rightarrow> Inl e
              | Inr (p, ob1) \<Rightarrow>
                  (let ob2 = output_buffer_commit (memcpy ob1 p (take len pformat)) len;
                       pformat' = tl pspecifier
                   in if deref pformat' \<noteq> CHR ''%'' then Inr (Some pformat', ob2)
                      else (case append_percent ob2 of
                              Inl e \<Rightarrow> Inl e
                            | Inr ob3 \<Rightarrow> next_specifier ob3 (tl pformat')))))"
  by pat_completeness auto
termination
proof (relation "measure (\<lambda>(ob, pformat). length pformat)")
  show "wf (measure (\<lambda>(ob, pformat). length pformat))" by simp
next
  fix ob ob3 :: output_buffer and pformat pspecifier pformat' :: string
  assume "strchr pformat CHR ''%'' = Some pspecifier" and "pformat' = tl pspecifier"
  then show "((ob3, tl pformat'), (ob, pformat)) \<in> measure (\<lambda>(ob, pformat). length pformat)"
    using strchr_length [of pformat "CHR ''%''" pspecifier]
      strchr_percent [of pformat pspecifier]
    by (cases pspecifier) auto
qed

declare next_specifier.simps [simp del]

text \<open>
  What the specification says of the walk over the format string (section 4.7): literal
  bytes are copied, a doubled \<^verbatim>\<open>%%\<close> collapses to one \<^verbatim>\<open>%\<close>, and the walk stops behind the
  first undoubled \<^verbatim>\<open>%\<close>. \<open>literal_output\<close> is what is copied up to there, \<open>specifier\<close> is
  the rest of the string behind that \<^verbatim>\<open>%\<close>, or \<open>None\<close> when there is no undoubled \<^verbatim>\<open>%\<close>.
\<close>

fun literal_output :: "string \<Rightarrow> string" where
  "literal_output [] = []"
| "literal_output [c] = (if c = CHR ''%'' then [] else [c])"
| "literal_output (c # d # cs) =
     (if c \<noteq> CHR ''%'' then c # literal_output (d # cs)
      else if d = CHR ''%'' then CHR ''%'' # literal_output cs
      else [])"

fun specifier :: "string \<Rightarrow> string option" where
  "specifier [] = None"
| "specifier [c] = (if c = CHR ''%'' then Some [] else None)"
| "specifier (c # d # cs) =
     (if c \<noteq> CHR ''%'' then specifier (d # cs)
      else if d = CHR ''%'' then specifier cs
      else Some (d # cs))"

section \<open>The file writer\<close>

text \<open>
  The error numbers that \<^verbatim>\<open>file_writer::write\<close> names; \<open>Other_errno n\<close> is any other
  error number.
\<close>

datatype errno_t =
  EINTR | EFBIG | EIO | EPIPE | ERANGE | ECONNRESET | EINVAL | ENXIO | EACCES | ENETDOWN
  | ENETUNREACH | ENOSPC | Other_errno nat

text \<open>
  What one call of the system call \<^verbatim>\<open>::write(fd, p, count)\<close> does: \<open>Wrote n\<close> when the
  kernel is ready to take \<open>n\<close> bytes (it takes at most \<open>count\<close> and returns the number
  taken), \<open>Failed e\<close> when the call returns \<open>-1\<close> with \<^verbatim>\<open>errno\<close> set to \<open>e\<close>.
\<close>

datatype sys_write = Wrote nat | Failed errno_t

text \<open>
  The \<^verbatim>\<open>while\<close> loop of \<^verbatim>\<open>file_writer::write\<close> (lines 105-114). The first argument lists
  what the successive system calls do; \<open>bytes\<close> are the \<open>count\<close> bytes from \<open>p\<close> on; the state
  is the content of the file and \<^verbatim>\<open>errno\<close>. The result is \<open>None\<close> when the loop is still
  running after the last listed system call; otherwise it holds the bytes that are left
  (\<open>count\<close> is their number) and the state when the loop ends.
\<close>

fun write_loop ::
    "sys_write list \<Rightarrow> string \<Rightarrow> string \<times> errno_t \<Rightarrow> (string \<times> string \<times> errno_t) option" where
  "write_loop [] bytes st = (if bytes = [] then Some (bytes, st) else None)"
| "write_loop (r # calls) bytes st =
     (if bytes = [] then Some (bytes, st)
      else case r of
             Failed e \<Rightarrow>
               if e \<noteq> EINTR then Some (bytes, fst st, e)
               else write_loop calls bytes (fst st, e)
           | Wrote n \<Rightarrow>
               let written = min n (length bytes)
               in write_loop calls (drop written bytes) (fst st @ take written bytes, snd st))"

text \<open>
  \<^verbatim>\<open>file_writer::write\<close> (lines 102-138): the \<^verbatim>\<open>Result\<close> returned or the exception thrown,
  and the state afterwards.
\<close>

definition file_writer_write ::
    "sys_write list \<Rightarrow> string \<Rightarrow> string \<times> errno_t
       \<Rightarrow> ((error + Result) \<times> string \<times> errno_t) option" where
  "file_writer_write calls bytes st =
     (case write_loop calls bytes st of
        None \<Rightarrow> None
      | Some (rest, file, errno) \<Rightarrow>
          Some (if rest = [] then Inr SUCCESS
                else (case errno of
                        EFBIG \<Rightarrow> Inr ERROR_GIVE_UP
                      | EIO \<Rightarrow> Inr ERROR_GIVE_UP
                      | EPIPE \<Rightarrow> Inr ERROR_GIVE_UP
                      | ERANGE \<Rightarrow> Inr ERROR_GIVE_UP
                      | ECONNRESET \<Rightarrow> Inr ERROR_GIVE_UP
                      | EINVAL \<Rightarrow> Inr ERROR_GIVE_UP
                      | ENXIO \<Rightarrow> Inr ERROR_GIVE_UP
                      | EACCES \<Rightarrow> Inr ERROR_GIVE_UP
                      | ENETDOWN \<Rightarrow> Inr ERROR_GIVE_UP
                      | ENETUNREACH \<Rightarrow> Inr ERROR_GIVE_UP
                      | ENOSPC \<Rightarrow> Inr ERROR_TRY_LATER
                      | _ \<Rightarrow> Inl (runtime_error ''cannot write to file descriptor'')),
                file, errno))"

text \<open>The error numbers that the specification maps to \<^verbatim>\<open>ERROR_GIVE_UP\<close>.\<close>

definition give_up_errnos :: "errno_t set" where
  "give_up_errnos =
     {EFBIG, EIO, EPIPE, ERANGE, ECONNRESET, EINVAL, ENXIO, EACCES, ENETDOWN, ENETUNREACH}"

text \<open>The number of bytes that the listed system calls are ready to take.\<close>

fun capacity_of :: "sys_write list \<Rightarrow> nat" where
  "capacity_of [] = 0"
| "capacity_of (Wrote n # calls) = n + capacity_of calls"
| "capacity_of (Failed e # calls) = capacity_of calls"


section \<open>Notions and inputs for the results\<close>

definition accepted :: "output_buffer \<Rightarrow> string" where
  "accepted ob = delivered ob @ pending ob"

definition all_success :: "output_buffer \<Rightarrow> bool" where
  "all_success ob = (\<forall>k. pwriter ob k = SUCCESS)"

definition partly_filled :: output_buffer where
  "partly_filled =
     \<lparr>pwriter = always_success, writes = [], pbuffer = blank, pcommit_end_out = 6,
      pbuffer_end = 8\<rparr>"

definition s5_extents :: "string list list" where
  "s5_extents = [[''a''], [''b''], [''c''], [''d''], [''e''], [''f'']]"

definition s5_buffer :: output_buffer where
  "s5_buffer = output_buffer_ctor backpressure_writer 16 blank"

definition two_extents :: "string list list" where
  "two_extents = [[''ab'', ''cde''], [''fg'']]"

definition success_buffer :: output_buffer where
  "success_buffer = output_buffer_ctor always_success 4 blank"

definition d_buffer :: output_buffer where
  "d_buffer = output_buffer_ctor always_success 8 blank"

text \<open>The number that a string of decimal digits denotes.\<close>

fun decimal_value :: "string \<Rightarrow> nat" where
  "decimal_value s = foldl (\<lambda>a c. 10 * a + (of_char c - 48)) 0 s"



definition walk_buffer :: output_buffer where
  "walk_buffer = output_buffer_ctor always_success 16 blank"

text \<open>
  The mapping from the error number to the result, in the words of the specification
  (section 6, the file writer).
\<close>

definition spec_write_result :: "errno_t \<Rightarrow> error + Result" where
  "spec_write_result e =
     (if e \<in> give_up_errnos then Inr ERROR_GIVE_UP
      else if e = ENOSPC then Inr ERROR_TRY_LATER
      else Inl (runtime_error ''cannot write to file descriptor''))"

section \<open>Results about the input buffer\<close>

lemma to_size_t_id: "0 \<le> x \<Longrightarrow> x < 2 ^ 64 \<Longrightarrow> to_size_t x = x"
  by (simp add: to_size_t_def)

lemma advance_no_overshoot:
  assumes "p + int d \<le> pbegin ib + int TLS_INPUT_BUFFER_SIZE" "pbegin ib \<le> p"
  shows "advance_frame_pointer ib p d = spec_advance ib p d"
proof -
  let ?r = "int TLS_INPUT_BUFFER_SIZE - (p + int d - pbegin ib)"
  have "0 \<le> ?r" using assms by simp
  moreover have "?r < 2 ^ 64" using assms by (simp add: TLS_INPUT_BUFFER_SIZE_def)
  ultimately have "to_size_t ?r = ?r" by (rule to_size_t_id)
  then show ?thesis
    by (auto simp: advance_frame_pointer_def spec_advance_def Let_def)
qed

text \<open>A pointer that reaches the end of the buffer wraps to its beginning.\<close>

lemma advance_frame_pointer_wraps:
  "p + int d = pbegin ib + int TLS_INPUT_BUFFER_SIZE \<Longrightarrow> advance_frame_pointer ib p d = pbegin ib"
  by (simp add: advance_frame_pointer_def to_size_t_def Let_def)

lemma pass_refines:
  assumes "in_ring ib (pinput_start ib)" "in_ring ib (pinput_end ib)"
  shows "allocate_input_frame_pass ib sz = spec_allocation_step ib sz"
proof -
  let ?t = "int TLS_INPUT_BUFFER_SIZE - (pinput_end ib - pbegin ib)"
  let ?h = "pinput_start ib - pbegin ib"
  have t: "to_size_t ?t = ?t"
    using assms by (intro to_size_t_id) (auto simp: in_ring_def TLS_INPUT_BUFFER_SIZE_def)
  have h: "to_size_t ?h = ?h"
    using assms by (intro to_size_t_id) (auto simp: in_ring_def TLS_INPUT_BUFFER_SIZE_def)
  have a1: "int sz < pinput_start ib - pinput_end ib \<Longrightarrow>
      advance_frame_pointer ib (pinput_end ib) sz = spec_advance ib (pinput_end ib) sz"
    using assms by (intro advance_no_overshoot) (auto simp: in_ring_def)
  have a2: "int sz < ?t \<Longrightarrow>
      advance_frame_pointer ib (pinput_end ib) sz = spec_advance ib (pinput_end ib) sz"
    using assms by (intro advance_no_overshoot) (auto simp: in_ring_def)
  have a3: "int sz < ?h \<Longrightarrow> advance_frame_pointer ib (pbegin ib) sz = pbegin ib + int sz"
    using assms by (subst advance_no_overshoot) (auto simp: in_ring_def spec_advance_def)
  show ?thesis
    unfolding allocate_input_frame_pass_def spec_allocation_step_def Let_def t h
      wait_input_consumed_def spec_block_def
    using a1 a2 a3 by simp
qed

lemma pass_blocked_keeps:
  "allocate_input_frame_pass ib sz = (None, ib') \<Longrightarrow>
     pbegin ib' = pbegin ib \<and> pinput_end ib' = pinput_end ib"
  by (auto simp: allocate_input_frame_pass_def Let_def wait_input_consumed_def commit_def
      split: if_splits)

lemma allocate_refines:
  assumes "in_ring ib (pinput_start ib)" "in_ring ib (pinput_end ib)"
    and "\<forall>s \<in> set consumed. in_ring ib s"
  shows "allocate_input_frame consumed ib sz = spec_allocate consumed ib sz"
  using assms
proof (induction consumed arbitrary: ib)
  case Nil
  then show ?case by (simp add: pass_refines)
next
  case (Cons start consumed)
  have eq: "allocate_input_frame_pass ib sz = spec_allocation_step ib sz"
    using Cons.prems by (simp add: pass_refines)
  show ?case
  proof (cases "spec_allocation_step ib sz")
    case (Pair r ib')
    show ?thesis
    proof (cases r)
      case None
      with Pair eq have k: "pbegin ib' = pbegin ib" "pinput_end ib' = pinput_end ib"
        using pass_blocked_keeps by auto
      have "allocate_input_frame consumed (ib'\<lparr>pinput_start := start\<rparr>) sz =
            spec_allocate consumed (ib'\<lparr>pinput_start := start\<rparr>) sz"
        using Cons.prems k by (intro Cons.IH) (auto simp: in_ring_def)
      with Pair None eq show ?thesis by simp
    next
      case (Some p)
      with Pair eq show ?thesis by simp
    qed
  qed
qed

lemma is_aligned_add: "is_aligned p fa \<Longrightarrow> is_aligned (int d) fa \<Longrightarrow> is_aligned (p + int d) fa"
  unfolding is_aligned_def by (metis add.right_neutral mod_add_eq mod_0)

lemma TLS_pos: "0 < int TLS_INPUT_BUFFER_SIZE"
  by (simp add: TLS_INPUT_BUFFER_SIZE_def)

lemma spec_advance_ok:
  assumes "is_aligned (pbegin ib) fa" "position_ok fa ib p" "is_aligned (int d) fa"
    and "p + int d \<le> pbegin ib + int TLS_INPUT_BUFFER_SIZE"
  shows "position_ok fa ib (spec_advance ib p d)"
proof (cases "p + int d = pbegin ib + int TLS_INPUT_BUFFER_SIZE")
  case True
  then show ?thesis
    using assms(1) TLS_pos by (simp add: spec_advance_def position_ok_def in_ring_def)
next
  case False
  moreover have "is_aligned (p + int d) fa"
    using assms(2,3) by (simp add: is_aligned_add position_ok_def)
  ultimately show ?thesis
    using assms(2,4) by (simp add: spec_advance_def position_ok_def in_ring_def)
qed

lemma advance_ok:
  assumes "is_aligned (pbegin ib) fa" "position_ok fa ib p" "is_aligned (int d) fa"
    and "p + int d \<le> pbegin ib + int TLS_INPUT_BUFFER_SIZE"
  shows "position_ok fa ib (advance_frame_pointer ib p d)"
proof -
  have "pbegin ib \<le> p" using assms(2) by (simp add: position_ok_def in_ring_def)
  then have "advance_frame_pointer ib p d = spec_advance ib p d"
    using assms(4) by (intro advance_no_overshoot)
  then show ?thesis using spec_advance_ok [OF assms] by simp
qed

lemma position_ok_cong:
  "pbegin ib' = pbegin ib \<Longrightarrow> position_ok fa ib' p = position_ok fa ib p"
  by (simp add: position_ok_def in_ring_def)

lemma positions_ok_commit: "positions_ok fa ib \<Longrightarrow> positions_ok fa (commit ib)"
  by (simp add: positions_ok_def commit_def position_ok_def in_ring_def)

lemma positions_ok_wait: "positions_ok fa ib \<Longrightarrow> positions_ok fa (wait_input_consumed ib)"
  by (simp add: wait_input_consumed_def positions_ok_commit)

lemma positions_ok_set_end:
  "positions_ok fa ib \<Longrightarrow> position_ok fa ib p \<Longrightarrow> positions_ok fa (ib\<lparr>pinput_end := p\<rparr>)"
  by (simp add: positions_ok_def position_ok_def in_ring_def)

lemma positions_ok_set_start:
  "positions_ok fa ib \<Longrightarrow> position_ok fa ib p \<Longrightarrow> positions_ok fa (ib\<lparr>pinput_start := p\<rparr>)"
  by (simp add: positions_ok_def position_ok_def in_ring_def)

lemma positions_ok_memory:
  "positions_ok fa (ib\<lparr>memory := m\<rparr>) = positions_ok fa ib"
  by (simp add: positions_ok_def position_ok_def in_ring_def)

lemma position_ok_memory:
  "position_ok fa (ib\<lparr>memory := m\<rparr>) p = position_ok fa ib p"
  by (simp add: position_ok_def in_ring_def)

lemma positions_ok_allocate:
  assumes ok: "positions_ok fa ib" and al: "is_aligned (int sz) fa"
  shows "positions_ok fa (snd (allocate_input_frame_pass ib sz))"
proof -
  have b: "is_aligned (pbegin ib) fa" and s: "position_ok fa ib (pinput_start ib)"
    and e: "position_ok fa ib (pinput_end ib)"
    using ok by (simp_all add: positions_ok_def)
  have r: "in_ring ib (pinput_start ib)" "in_ring ib (pinput_end ib)"
    using s e by (simp_all add: position_ok_def)
  have pb: "position_ok fa ib (pbegin ib)"
    using b TLS_pos by (simp add: position_ok_def in_ring_def)
  have tail: "position_ok fa ib (spec_advance ib (pinput_end ib) sz)"
    if "pinput_end ib + int sz \<le> pbegin ib + int TLS_INPUT_BUFFER_SIZE"
    using b e al that by (rule spec_advance_ok)
  have head: "position_ok fa ib (pbegin ib + int sz)"
    if "int sz < pinput_start ib - pbegin ib"
    using that pb al r by (simp add: position_ok_def in_ring_def is_aligned_add)
  have "positions_ok fa (snd (spec_allocation_step ib sz))"
    unfolding spec_allocation_step_def Let_def spec_block_def
    using ok tail head r
    by (auto simp: positions_ok_commit positions_ok_memory position_ok_memory in_ring_def
        intro!: positions_ok_set_end)
  then show ?thesis using r by (simp add: pass_refines)
qed

lemma positions_ok_discard:
  assumes ok: "positions_ok fa ib" and al: "is_aligned (int sz) fa"
    and fit: "pinput_start ib + int sz \<le> pbegin ib + int TLS_INPUT_BUFFER_SIZE"
  shows "positions_ok fa (snd (discard_input_frame ib sz))"
proof -
  have "position_ok fa ib (advance_frame_pointer ib (pinput_start ib) sz)"
    using ok al fit by (intro advance_ok) (simp_all add: positions_ok_def)
  then show ?thesis
    using ok by (simp add: discard_input_frame_def Let_def positions_ok_set_start)
qed

lemma positions_ok_wraparound:
  assumes ok: "positions_ok fa ib"
  shows "positions_ok fa (case wraparound ib of Inl e \<Rightarrow> ib | Inr (p, ib') \<Rightarrow> ib')"
proof -
  have "position_ok fa ib (pbegin ib)"
    using ok TLS_pos by (simp add: positions_ok_def position_ok_def in_ring_def)
  then show ?thesis
    using ok by (simp add: wraparound_def positions_ok_set_start)
qed

lemma positions_ok_exec:
  "positions_ok fa ib \<Longrightarrow> admissible fa ib op \<Longrightarrow> positions_ok fa (exec ib op)"
  by (cases op)
    (simp_all add: positions_ok_allocate positions_ok_commit positions_ok_discard
      positions_ok_wraparound)

lemma positions_ok_run:
  "positions_ok fa ib \<Longrightarrow> admissible_run fa ib ops \<Longrightarrow> positions_ok fa (run ib ops)"
  by (induction ops arbitrary: ib) (simp_all add: positions_ok_exec)

lemma positions_ok_ctor:
  "input_buffer_ctor r m = Inr ib \<Longrightarrow> r = Some p \<Longrightarrow> is_aligned p fa \<Longrightarrow> positions_ok fa ib"
  using TLS_pos
  by (auto simp: input_buffer_ctor_def allocate_buffer_def positions_ok_def position_ok_def
      in_ring_def)

text \<open>
  C2: under the invariant that \<open>input_start\<close> and \<open>input_end\<close> lie in the ring, one pass of
  \<^verbatim>\<open>allocate_input_frame\<close> is the two-case algorithm of the specification for every
  requested size. When the free region is contiguous it claims at \<open>input_end\<close> exactly when
  the size is strictly less than the free space, advances \<open>input_end\<close> with wraparound and
  returns the old \<open>input_end\<close>. When the free region is split it claims in the tail exactly
  when the size is strictly less than the tail free space; otherwise, exactly when the size
  is strictly less than the head free space, it writes \<^verbatim>\<open>WRAPAROUND_MARKER\<close> at
  \<open>input_end\<close>, sets \<open>input_end\<close> to \<open>begin + size\<close> and returns \<open>begin\<close>. In all remaining
  cases it waits for the input-consumed event and retries with the \<open>input_start\<close> it then
  finds.
\<close>

theorem allocate_input_frame_two_cases:
  assumes "in_ring ib (pinput_start ib)" and "in_ring ib (pinput_end ib)"
    and "\<forall>s \<in> set consumed. in_ring ib s"
  shows "allocate_input_frame_pass ib sz = spec_allocation_step ib sz \<and>
         allocate_input_frame consumed ib sz = spec_allocate consumed ib sz"
  using assms by (simp add: pass_refines allocate_refines)

theorem allocate_input_frame_two_cases_witness:
  "in_ring tail_buffer (pinput_start tail_buffer) \<and>
   in_ring tail_buffer (pinput_end tail_buffer) \<and>
   in_ring tail_buffer 4224 \<and>
   fst (allocate_input_frame_pass tail_buffer 64) = None \<and>
   map_option fst (allocate_input_frame [4224] tail_buffer 64) = Some 4096 \<and>
   map_option (pinput_end \<circ> snd) (allocate_input_frame [4224] tail_buffer 64) = Some 4160 \<and>
   map_option (\<lambda>r. memory (snd r) 36848) (allocate_input_frame [4224] tail_buffer 64)
     = Some WRAPAROUND_MARKER"
proof -
  have h: "in_ring tail_buffer (pinput_start tail_buffer)"
    "in_ring tail_buffer (pinput_end tail_buffer)"
    "\<forall>s \<in> set [4224]. in_ring tail_buffer s"
    by (simp_all add: in_ring_def tail_buffer_def TLS_INPUT_BUFFER_SIZE_def)
  have e: "allocate_input_frame_pass tail_buffer 64 = spec_allocation_step tail_buffer 64"
    "allocate_input_frame [4224] tail_buffer 64 = spec_allocate [4224] tail_buffer 64"
    using allocate_input_frame_two_cases [OF h, of 64] by (rule conjunct1, rule conjunct2)
  show ?thesis
    unfolding e using h(1,2)
    by (simp add: in_ring_def spec_allocation_step_def spec_block_def spec_advance_def tail_buffer_def
        TLS_INPUT_BUFFER_SIZE_def Let_def)
qed

text \<open>
  C3: starting from a fresh input buffer whose block is aligned, after every sequence of
  producer operations (passes of \<^verbatim>\<open>allocate_input_frame\<close>, \<^verbatim>\<open>commit\<close>) and consumer
  operations (\<^verbatim>\<open>discard_input_frame\<close>, \<^verbatim>\<open>wraparound\<close>) whose sizes are aligned and whose
  discarded frames do not reach past the end of the buffer, the positions \<open>input_start\<close>,
  \<open>input_end\<close> and \<open>commit_end\<close> are aligned and strictly less than \<open>begin + CAP\<close>.
\<close>

theorem positions_aligned_in_ring:
  assumes "input_buffer_ctor (Some p) m = Inr ib" and "is_aligned p fa"
    and "admissible_run fa ib ops"
  shows "is_aligned (pinput_start (run ib ops)) fa \<and>
         is_aligned (pinput_end (run ib ops)) fa \<and>
         is_aligned (pcommit_end (run ib ops)) fa \<and>
         pinput_start (run ib ops) < pbegin (run ib ops) + int TLS_INPUT_BUFFER_SIZE \<and>
         pinput_end (run ib ops) < pbegin (run ib ops) + int TLS_INPUT_BUFFER_SIZE \<and>
         pcommit_end (run ib ops) < pbegin (run ib ops) + int TLS_INPUT_BUFFER_SIZE \<and>
         positions_ok fa (run ib ops)"
proof -
  have "positions_ok fa ib"
    using assms(1,2) by (intro positions_ok_ctor [where r="Some p"]) simp_all
  then have "positions_ok fa (run ib ops)"
    using assms(3) by (rule positions_ok_run)
  then show ?thesis
    by (simp add: positions_ok_def position_ok_def in_ring_def)
qed

theorem positions_aligned_in_ring_witness:
  "input_buffer_ctor (Some 4096) (\<lambda>a. Decoder 0) = Inr fresh_buffer \<and>
   is_aligned 4096 16 \<and>
   admissible_run 16 fresh_buffer
     [Allocate 32752, Commit, Discard 32752, Allocate 32, Commit, Wraparound, Discard 32] \<and>
   positions_ok 16 (run fresh_buffer
     [Allocate 32752, Commit, Discard 32752, Allocate 32, Commit, Wraparound, Discard 32])"
proof -
  have h: "input_buffer_ctor (Some 4096) (\<lambda>a. Decoder 0) = Inr fresh_buffer"
    "is_aligned 4096 16"
    "admissible_run 16 fresh_buffer
       [Allocate 32752, Commit, Discard 32752, Allocate 32, Commit, Wraparound, Discard 32]"
    by (simp_all add: input_buffer_ctor_def allocate_buffer_def fresh_buffer_def is_aligned_def
        allocate_input_frame_pass_def advance_frame_pointer_def to_size_t_def commit_def
        discard_input_frame_def wraparound_def NDEBUG_def wait_input_consumed_def
        TLS_INPUT_BUFFER_SIZE_def Let_def)
  show ?thesis
    using h positions_aligned_in_ring [OF h] by simp
qed

text \<open>
  The claim C4 as it is written fails: the word at \<open>input_start\<close> is not the marker, and
  \<^verbatim>\<open>wraparound\<close> resets \<open>input_start\<close> and returns all the same.
\<close>

theorem wraparound_unasserted_counterexample:
  "memory unmarked_buffer (pinput_start unmarked_buffer) \<noteq> WRAPAROUND_MARKER \<and>
   wraparound unmarked_buffer \<noteq> Inl assertion_failed \<and>
   wraparound unmarked_buffer = Inr (4096, unmarked_buffer\<lparr>pinput_start := 4096\<rparr>)"
  by (simp add: wraparound_def NDEBUG_def unmarked_buffer_def)

text \<open>
  C4, amended: the translation unit defines \<^verbatim>\<open>NDEBUG\<close>, so \<^verbatim>\<open>wraparound\<close> evaluates no
  assertion. In every state, whatever word is stored at \<open>input_start\<close>, it resets
  \<open>input_start\<close> to \<open>begin\<close> and returns \<open>begin\<close>.
\<close>

theorem wraparound_resets:
  "wraparound ib = Inr (pbegin ib, ib\<lparr>pinput_start := pbegin ib\<rparr>)"
  by (simp add: wraparound_def NDEBUG_def)

theorem wraparound_resets_witness:
  "wraparound undrained_buffer = Inr (4096, undrained_buffer\<lparr>pinput_start := 4096\<rparr>)"
  using wraparound_resets [of undrained_buffer] by (simp add: undrained_buffer_def)

text \<open>
  C6: when \<open>commit_end\<close> equals \<open>input_start\<close> on entry to \<^verbatim>\<open>wait_input_consumed\<close>, the
  producer calls \<^verbatim>\<open>commit\<close> before it waits, which publishes \<open>input_end\<close> and enqueues the
  extent; otherwise it waits in the state it came with. So the wait is never entered in a
  state where unpublished data is the only data in the ring.
\<close>

theorem wait_input_consumed_commits_first:
  "(pcommit_end ib = pinput_start ib \<longrightarrow>
      wait_input_consumed ib = commit ib \<and>
      pcommit_end (wait_input_consumed ib) = pinput_end ib \<and>
      g_shared_input_queue (wait_input_consumed ib) = g_shared_input_queue ib @ [pinput_end ib]) \<and>
   (pcommit_end ib \<noteq> pinput_start ib \<longrightarrow> wait_input_consumed ib = ib) \<and>
   \<not> only_unpublished_data (wait_input_consumed ib)"
  by (simp add: wait_input_consumed_def commit_def only_unpublished_data_def)

theorem wait_input_consumed_commits_first_witness:
  "pcommit_end undrained_buffer = pinput_start undrained_buffer \<and>
   only_unpublished_data undrained_buffer \<and>
   wait_input_consumed undrained_buffer = commit undrained_buffer \<and>
   pcommit_end (wait_input_consumed undrained_buffer) = 4144 \<and>
   g_shared_input_queue (wait_input_consumed undrained_buffer) = [4112, 4144] \<and>
   \<not> only_unpublished_data (wait_input_consumed undrained_buffer)"
  using wait_input_consumed_commits_first [of undrained_buffer]
  by (simp add: undrained_buffer_def only_unpublished_data_def commit_def)

section \<open>Results about the output buffer\<close>

lemma free_space:
  assumes "well_formed ob"
  shows "to_size_t (int (pbuffer_end ob) - int (pcommit_end_out ob))
       = int (pbuffer_end ob - pcommit_end_out ob)"
proof -
  have le: "pcommit_end_out ob \<le> pbuffer_end ob" and lt: "pbuffer_end ob < 2 ^ 64"
    using assms by (simp_all add: well_formed_def)
  have eq: "int (pbuffer_end ob) - int (pcommit_end_out ob) = int (pbuffer_end ob - pcommit_end_out ob)"
    using le by simp
  have "pbuffer_end ob - pcommit_end_out ob < 2 ^ 64" using lt by arith
  then have "int (pbuffer_end ob - pcommit_end_out ob) < 2 ^ 64"
    by (metis of_nat_less_iff of_nat_numeral of_nat_power)
  then show ?thesis unfolding eq by (intro to_size_t_id) simp_all
qed

lemma whole_space:
  assumes "well_formed ob"
  shows "to_size_t (int (pbuffer_end ob)) = int (pbuffer_end ob)"
proof -
  have "pbuffer_end ob < 2 ^ 64" using assms by (simp add: well_formed_def)
  then have "int (pbuffer_end ob) < 2 ^ 64"
    by (metis of_nat_less_iff of_nat_numeral of_nat_power)
  then show ?thesis by (intro to_size_t_id) simp_all
qed

lemma flush_fields [simp]:
  "pbuffer_end (flush ob) = pbuffer_end ob"
  "pcommit_end_out (flush ob) = 0"
  "pbuffer (flush ob) = pbuffer ob"
  "pwriter (flush ob) = pwriter ob"
  "writes (flush ob) = writes ob @ [(pending ob, pwriter ob (length (writes ob)))]"
  by (simp_all add: flush_def)

lemma well_formed_flush: "well_formed ob \<Longrightarrow> well_formed (flush ob)"
  by (simp add: well_formed_def)

lemma pending_flush [simp]: "pending (flush ob) = []"
  by (simp add: pending_def)

lemma handed_flush: "handed (flush ob) = handed ob @ pending ob"
  by (simp add: handed_def)

lemma committed_flush: "committed (flush ob) = committed ob"
  by (simp add: committed_def handed_flush)

lemma reserve_enough:
  assumes "well_formed ob" and "n \<le> pbuffer_end ob - pcommit_end_out ob"
  shows "reserve ob n = Inr (pcommit_end_out ob, ob)"
  using assms by (simp add: reserve_def free_space)

lemma reserve_short:
  assumes "well_formed ob" and "\<not> n \<le> pbuffer_end ob - pcommit_end_out ob"
  shows "reserve ob n = (if pbuffer_end ob < n then Inl bad_alloc else Inr (0, flush ob))"
  using assms by (simp add: reserve_def free_space whole_space well_formed_flush Let_def)

lemma reserve_fails_iff:
  assumes "well_formed ob"
  shows "(\<exists>e. reserve ob n = Inl e) \<longleftrightarrow> pbuffer_end ob < n"
proof (cases "n \<le> pbuffer_end ob - pcommit_end_out ob")
  case True
  then show ?thesis using assms by (auto simp: reserve_enough)
next
  case False
  then show ?thesis using assms by (simp add: reserve_short)
qed

lemma reserve_error: "reserve ob n = Inl e \<Longrightarrow> e = bad_alloc"
  by (auto simp: reserve_def Let_def split: if_splits)

text \<open>What a successful reservation gives.\<close>

lemma reserve_Inr:
  assumes "well_formed ob" and "n \<le> pbuffer_end ob"
  obtains p ob' where "reserve ob n = Inr (p, ob')" and "p = pcommit_end_out ob'"
    and "well_formed ob'" and "p + n \<le> pbuffer_end ob'" and "pbuffer_end ob' = pbuffer_end ob"
    and "committed ob' = committed ob" and "pwriter ob' = pwriter ob"
    and "ob' = ob \<or> ob' = flush ob"
proof (cases "n \<le> pbuffer_end ob - pcommit_end_out ob")
  case True
  with assms show ?thesis
    by (intro that [of "pcommit_end_out ob" ob]) (auto simp: reserve_enough well_formed_def)
next
  case False
  with assms show ?thesis
    by (intro that [of 0 "flush ob"])
      (simp_all add: reserve_short well_formed_flush committed_flush)
qed

lemma map_memcpy:
  "map (pbuffer (memcpy ob p s)) [0..<p + length s] = map (pbuffer ob) [0..<p] @ s"
proof -
  have "[0..<p + length s] = [0..<p] @ [p..<p + length s]"
    by (rule upt_add_eq_append) simp
  moreover have "map (pbuffer (memcpy ob p s)) [0..<p] = map (pbuffer ob) [0..<p]"
    by (simp add: memcpy_def)
  moreover have "map (pbuffer (memcpy ob p s)) [p..<p + length s] = s"
    by (rule nth_equalityI) (simp_all add: memcpy_def)
  ultimately show ?thesis by simp
qed

lemma pending_store:
  assumes "p = pcommit_end_out ob"
  shows "pending (output_buffer_commit (memcpy ob p s) (length s)) = pending ob @ s"
  using map_memcpy [of ob p s] assms
  by (simp add: pending_def output_buffer_commit_def memcpy_def)

lemma store_fields [simp]:
  "writes (output_buffer_commit (memcpy ob p s) n) = writes ob"
  "pwriter (output_buffer_commit (memcpy ob p s) n) = pwriter ob"
  "pbuffer_end (output_buffer_commit (memcpy ob p s) n) = pbuffer_end ob"
  "pcommit_end_out (output_buffer_commit (memcpy ob p s) n) = pcommit_end_out ob + n"
  by (simp_all add: output_buffer_commit_def memcpy_def)

lemma committed_store:
  assumes "p = pcommit_end_out ob"
  shows "committed (output_buffer_commit (memcpy ob p s) (length s)) = committed ob @ s"
  using pending_store [OF assms, of s] by (simp add: committed_def handed_def)

lemma well_formed_store:
  "well_formed ob \<Longrightarrow> pcommit_end_out ob + n \<le> pbuffer_end ob \<Longrightarrow>
     well_formed (output_buffer_commit (memcpy ob p s) n)"
  by (simp add: well_formed_def)

text \<open>Reserve, copy, commit: the protocol of every formatter.\<close>

lemma emit:
  assumes "well_formed ob" and "length s \<le> pbuffer_end ob"
  obtains p ob1 where "reserve ob (length s) = Inr (p, ob1)"
    and "well_formed (output_buffer_commit (memcpy ob1 p s) (length s))"
    and "committed (output_buffer_commit (memcpy ob1 p s) (length s)) = committed ob @ s"
    and "pbuffer_end (output_buffer_commit (memcpy ob1 p s) (length s)) = pbuffer_end ob"
    and "pwriter (output_buffer_commit (memcpy ob1 p s) (length s)) = pwriter ob"
proof -
  obtain p ob1 where r: "reserve ob (length s) = Inr (p, ob1)" "p = pcommit_end_out ob1"
    "well_formed ob1" "p + length s \<le> pbuffer_end ob1" "pbuffer_end ob1 = pbuffer_end ob"
    "committed ob1 = committed ob" "pwriter ob1 = pwriter ob"
    using assms by (rule reserve_Inr)
  show ?thesis
  proof (rule that [OF r(1)])
    show "well_formed (output_buffer_commit (memcpy ob1 p s) (length s))"
      using r by (intro well_formed_store) simp_all
    show "committed (output_buffer_commit (memcpy ob1 p s) (length s)) = committed ob @ s"
      using r by (simp add: committed_store)
  qed (simp_all add: r)
qed

lemma formatter_format_ok:
  assumes "well_formed ob" and "length s \<le> pbuffer_end ob"
  obtains ob' where "formatter_format ob s = Inr ob'" and "well_formed ob'"
    and "committed ob' = committed ob @ s" and "pbuffer_end ob' = pbuffer_end ob"
    and "pwriter ob' = pwriter ob"
proof -
  obtain p ob1 where "reserve ob (length s) = Inr (p, ob1)"
    and "well_formed (output_buffer_commit (memcpy ob1 p s) (length s))"
    and "committed (output_buffer_commit (memcpy ob1 p s) (length s)) = committed ob @ s"
    and "pbuffer_end (output_buffer_commit (memcpy ob1 p s) (length s)) = pbuffer_end ob"
    and "pwriter (output_buffer_commit (memcpy ob1 p s) (length s)) = pwriter ob"
    using assms by (rule emit)
  then show ?thesis
    by (intro that [of "output_buffer_commit (memcpy ob1 p s) (length s)"])
      (simp_all add: formatter_format_def)
qed

lemma delivered_flush:
  "delivered (flush ob) =
     delivered ob @ (if pwriter ob (length (writes ob)) = SUCCESS then pending ob else [])"
  by (simp add: delivered_def)

lemma accepted_flush: "all_success ob \<Longrightarrow> accepted (flush ob) = accepted ob"
  by (simp add: accepted_def delivered_flush all_success_def)

lemma all_success_flush: "all_success (flush ob) = all_success ob"
  by (simp add: all_success_def)

lemma accepted_store:
  assumes "p = pcommit_end_out ob"
  shows "accepted (output_buffer_commit (memcpy ob p s) (length s)) = accepted ob @ s"
  using pending_store [OF assms, of s] by (simp add: accepted_def delivered_def)

lemma formatter_format_accepted:
  assumes "well_formed ob" and "length s \<le> pbuffer_end ob" and "all_success ob"
    and "formatter_format ob s = Inr ob'"
  shows "accepted ob' = accepted ob @ s"
proof -
  obtain p ob1 where r: "reserve ob (length s) = Inr (p, ob1)" "p = pcommit_end_out ob1"
    "ob1 = ob \<or> ob1 = flush ob"
    using assms(1,2) by (rule reserve_Inr)
  have "accepted ob1 = accepted ob"
    using r(3) assms(3) by (auto simp: accepted_flush)
  moreover have "ob' = output_buffer_commit (memcpy ob1 p s) (length s)"
    using assms(4) r(1) by (simp add: formatter_format_def)
  ultimately show ?thesis using r(2) by (simp add: accepted_store)
qed

lemma dispatch_frames_ok:
  assumes "well_formed ob" and "\<forall>frame \<in> set frames. length frame \<le> pbuffer_end ob"
  shows "\<exists>ob'. dispatch_frames ob frames = Inr ob' \<and> well_formed ob' \<and>
           pbuffer_end ob' = pbuffer_end ob \<and> pwriter ob' = pwriter ob \<and>
           committed ob' = committed ob @ concat frames \<and>
           (all_success ob \<longrightarrow> accepted ob' = accepted ob @ concat frames)"
  using assms
proof (induction frames arbitrary: ob)
  case Nil
  then show ?case by simp
next
  case (Cons frame frames)
  have len: "length frame \<le> pbuffer_end ob" using Cons.prems(2) by simp
  obtain ob1 where f: "formatter_format ob frame = Inr ob1" "well_formed ob1"
    "committed ob1 = committed ob @ frame" "pbuffer_end ob1 = pbuffer_end ob"
    "pwriter ob1 = pwriter ob"
    using Cons.prems(1) len by (rule formatter_format_ok)
  have a: "all_success ob \<Longrightarrow> accepted ob1 = accepted ob @ frame"
    using Cons.prems(1) len f(1) by (intro formatter_format_accepted)
  have s: "all_success ob1 = all_success ob"
    using f(5) by (simp add: all_success_def)
  have "\<forall>frame \<in> set frames. length frame \<le> pbuffer_end ob1"
    using Cons.prems(2) f(4) by simp
  from Cons.IH [OF f(2) this] obtain ob' where
    "dispatch_frames ob1 frames = Inr ob'" "well_formed ob'"
    "pbuffer_end ob' = pbuffer_end ob1" "pwriter ob' = pwriter ob1"
    "committed ob' = committed ob1 @ concat frames"
    "all_success ob1 \<longrightarrow> accepted ob' = accepted ob1 @ concat frames"
    by blast
  then show ?case using f a s by simp
qed

lemma output_worker_ok:
  assumes "well_formed ob"
    and "\<forall>ce \<in> set extents. \<forall>frame \<in> set ce. length frame \<le> pbuffer_end ob"
  shows "\<exists>ob'. output_worker ob extents = Inr ob' \<and> well_formed ob' \<and>
           committed ob' = committed ob @ concat (concat extents) \<and>
           (all_success ob \<longrightarrow> accepted ob' = accepted ob @ concat (concat extents)) \<and>
           (extents \<noteq> [] \<longrightarrow> pending ob' = [])"
  using assms
proof (induction extents arbitrary: ob)
  case Nil
  then show ?case by simp
next
  case (Cons ce extents)
  have "\<forall>frame \<in> set ce. length frame \<le> pbuffer_end ob" using Cons.prems(2) by simp
  from dispatch_frames_ok [OF Cons.prems(1) this] obtain ob1 where
    d: "dispatch_frames ob ce = Inr ob1" "well_formed ob1"
    "pbuffer_end ob1 = pbuffer_end ob" "pwriter ob1 = pwriter ob"
    "committed ob1 = committed ob @ concat ce"
    "all_success ob \<longrightarrow> accepted ob1 = accepted ob @ concat ce"
    by blast
  have s: "all_success (flush ob1) = all_success ob" "all_success ob1 = all_success ob"
    using d(4) by (simp_all add: all_success_def)
  have w: "well_formed (flush ob1)" using d(2) by (rule well_formed_flush)
  have "\<forall>ce \<in> set extents. \<forall>frame \<in> set ce. length frame \<le> pbuffer_end (flush ob1)"
    using Cons.prems(2) d(3) by simp
  from Cons.IH [OF w this] obtain ob' where
    o: "output_worker (flush ob1) extents = Inr ob'" "well_formed ob'"
    "committed ob' = committed (flush ob1) @ concat (concat extents)"
    "all_success (flush ob1) \<longrightarrow> accepted ob' = accepted (flush ob1) @ concat (concat extents)"
    "extents \<noteq> [] \<longrightarrow> pending ob' = []"
    by blast
  have p: "pending ob' = []"
  proof (cases extents)
    case Nil
    then show ?thesis using o(1) by auto
  next
    case (Cons a list)
    then show ?thesis using o(5) by simp
  qed
  have a: "all_success ob \<Longrightarrow> accepted ob' = accepted ob @ concat (concat (ce # extents))"
    using o(4) s d(6) accepted_flush [of ob1] by simp
  show ?case
    using d(1) o(1,2,3) d(5) p a by (simp add: committed_flush)
qed

text \<open>
  C5: in a well-formed output buffer, for every requested size \<open>n\<close>, \<^verbatim>\<open>reserve\<close> returns the
  current \<open>commit_end\<close> and leaves the buffer as it is when the free space
  \<open>end - commit_end\<close> is at least \<open>n\<close>. Otherwise it calls \<^verbatim>\<open>flush\<close> and tries again on
  the flushed buffer, where it returns the start of the buffer; it fails, with
  \<^verbatim>\<open>std::bad_alloc\<close>, exactly when the capacity of the buffer is below \<open>n\<close>.
\<close>

theorem reserve_returns_or_flushes:
  assumes "well_formed ob"
  shows "(n \<le> pbuffer_end ob - pcommit_end_out ob \<longrightarrow>
            reserve ob n = Inr (pcommit_end_out ob, ob)) \<and>
         (\<not> n \<le> pbuffer_end ob - pcommit_end_out ob \<and> n \<le> pbuffer_end ob \<longrightarrow>
            reserve ob n = reserve (flush ob) n \<and>
            reserve ob n = Inr (pcommit_end_out (flush ob), flush ob)) \<and>
         (reserve ob n = Inl bad_alloc \<longleftrightarrow> pbuffer_end ob < n) \<and>
         ((\<exists>e. reserve ob n = Inl e) \<longleftrightarrow> pbuffer_end ob < n)"
proof -
  have fl: "well_formed (flush ob)" using assms by (rule well_formed_flush)
  have 1: "n \<le> pbuffer_end ob - pcommit_end_out ob \<Longrightarrow>
      reserve ob n = Inr (pcommit_end_out ob, ob)"
    using assms by (rule reserve_enough)
  have 2: "reserve ob n = reserve (flush ob) n \<and>
      reserve ob n = Inr (pcommit_end_out (flush ob), flush ob)"
    if "\<not> n \<le> pbuffer_end ob - pcommit_end_out ob" "n \<le> pbuffer_end ob"
    using that assms reserve_enough [OF fl, of n] by (simp add: reserve_short)
  have 3: "(\<exists>e. reserve ob n = Inl e) \<longleftrightarrow> pbuffer_end ob < n"
    using assms by (rule reserve_fails_iff)
  have 4: "reserve ob n = Inl bad_alloc \<longleftrightarrow> pbuffer_end ob < n"
    using 3 reserve_error [of ob n] by blast
  show ?thesis using 1 2 3 4 by blast
qed

theorem reserve_returns_or_flushes_witness:
  "well_formed partly_filled \<and>
   reserve partly_filled 2 = Inr (6, partly_filled) \<and>
   reserve partly_filled 5 = Inr (0, flush partly_filled) \<and>
   reserve partly_filled 9 = Inl bad_alloc"
proof -
  have w: "well_formed partly_filled"
    by (simp add: well_formed_def partly_filled_def)
  have v: "pbuffer_end partly_filled = 8" "pcommit_end_out partly_filled = 6"
    by (simp_all add: partly_filled_def)
  have a: "reserve partly_filled 2 = Inr (6, partly_filled)"
    using reserve_returns_or_flushes [OF w, of 2] by (auto simp: v)
  have b: "reserve partly_filled 5 = Inr (0, flush partly_filled)"
    using reserve_returns_or_flushes [OF w, of 5] by (auto simp: v)
  have c: "reserve partly_filled 9 = Inl bad_alloc"
    using reserve_returns_or_flushes [OF w, of 9] by (auto simp: v)
  show ?thesis using w a b c by simp
qed

text \<open>
  The claim C1 as it is written fails. In scenario S5 six records are committed and
  flushed one after the other; the writer answers the first five calls with
  \<^verbatim>\<open>ERROR_TRY_LATER\<close> and the sixth with \<^verbatim>\<open>SUCCESS\<close>. Every record is handed to the writer
  once; the bytes of the first five are not in the buffer afterwards and are not handed
  over again, so only the sixth record is delivered.
\<close>

theorem retained_bytes_counterexample:
  "map_sum id (map snd \<circ> writes) (output_worker s5_buffer s5_extents)
     = Inr [ERROR_TRY_LATER, ERROR_TRY_LATER, ERROR_TRY_LATER, ERROR_TRY_LATER,
            ERROR_TRY_LATER, SUCCESS] \<and>
   map_sum id handed (output_worker s5_buffer s5_extents) = Inr ''abcdef'' \<and>
   map_sum id delivered (output_worker s5_buffer s5_extents) = Inr ''f'' \<and>
   map_sum id pending (output_worker s5_buffer s5_extents) = Inr ''''"
  by (simp add: s5_buffer_def s5_extents_def output_buffer_ctor_def backpressure_writer_def
      formatter_format_def reserve_def to_size_t_def flush_def pending_def memcpy_def
      output_buffer_commit_def handed_def delivered_def Let_def)

text \<open>
  C1, amended: \<^verbatim>\<open>flush\<close> does not look at what the writer returns. Whatever the result,
  \<^verbatim>\<open>ERROR_TRY_LATER\<close> included, it hands the bytes of the output buffer to the writer once
  and resets \<open>commit_end\<close> to the start of the buffer, so these bytes are not retained for
  the next flush. For every sequence of records that each fit into the buffer, the bytes
  handed to the writer are the bytes produced, in order; the bytes delivered are the bytes
  produced when the writer returns \<^verbatim>\<open>SUCCESS\<close> from every call.
\<close>

theorem flush_ignores_writer_result:
  assumes "well_formed ob"
    and "\<forall>ce \<in> set extents. \<forall>frame \<in> set ce. length frame \<le> pbuffer_end ob"
  shows "pcommit_end_out (flush ob) = 0 \<and> pending (flush ob) = [] \<and>
         writes (flush ob) = writes ob @ [(pending ob, pwriter ob (length (writes ob)))] \<and>
         (\<exists>ob'. output_worker ob extents = Inr ob' \<and>
            committed ob' = committed ob @ concat (concat extents) \<and>
            (extents \<noteq> [] \<longrightarrow> handed ob' = committed ob @ concat (concat extents)) \<and>
            (extents \<noteq> [] \<and> all_success ob \<longrightarrow>
               delivered ob' = delivered ob @ pending ob @ concat (concat extents)))"
proof -
  from output_worker_ok [OF assms] obtain ob' where
    o: "output_worker ob extents = Inr ob'"
    "committed ob' = committed ob @ concat (concat extents)"
    "all_success ob \<longrightarrow> accepted ob' = accepted ob @ concat (concat extents)"
    "extents \<noteq> [] \<longrightarrow> pending ob' = []"
    by blast
  have h: "extents \<noteq> [] \<Longrightarrow> handed ob' = committed ob @ concat (concat extents)"
    using o(2,4) by (simp add: committed_def)
  have d: "extents \<noteq> [] \<Longrightarrow> all_success ob \<Longrightarrow>
      delivered ob' = delivered ob @ pending ob @ concat (concat extents)"
    using o(3,4) by (simp add: accepted_def)
  show ?thesis using o(1,2) h d by simp
qed

theorem flush_ignores_writer_result_witness:
  "well_formed success_buffer \<and>
   (\<exists>ob'. output_worker success_buffer two_extents = Inr ob' \<and>
      handed ob' = ''abcdefg'' \<and> delivered ob' = ''abcdefg'')"
proof -
  have w: "well_formed success_buffer"
    by (simp add: success_buffer_def output_buffer_ctor_def well_formed_def)
  have f: "\<forall>ce \<in> set two_extents. \<forall>frame \<in> set ce. length frame \<le> pbuffer_end success_buffer"
    by (simp add: two_extents_def success_buffer_def output_buffer_ctor_def)
  have a: "all_success success_buffer"
    by (simp add: all_success_def success_buffer_def output_buffer_ctor_def always_success_def)
  have e: "committed success_buffer = []" "delivered success_buffer = []"
    "pending success_buffer = []" "two_extents \<noteq> []"
    "concat (concat two_extents) = ''abcdefg''"
    by (simp_all add: committed_def handed_def delivered_def pending_def success_buffer_def
        output_buffer_ctor_def two_extents_def)
  show ?thesis
    using w a flush_ignores_writer_result [OF w f] by (auto simp: e)
qed

section \<open>Results about the formatters\<close>

lemma deref_d: "deref pformat = CHR ''d'' \<Longrightarrow> pformat = CHR ''d'' # tl pformat"
  by (cases pformat) (simp_all add: deref_def)

lemma generic_format_int_other:
  "deref pformat \<noteq> CHR ''d'' \<Longrightarrow> generic_format_int ob pformat v = Inr (False, pformat, ob)"
  by (simp add: generic_format_int_def Let_def)

lemma generic_format_int_d:
  assumes "deref pformat = CHR ''d''" and "well_formed ob"
    and "length (ostream_int v) \<le> pbuffer_end ob"
  shows "\<exists>ob'. generic_format_int ob pformat v = Inr (True, tl pformat, ob') \<and>
           well_formed ob' \<and> committed ob' = committed ob @ ostream_int v"
proof -
  obtain p ob1 where "reserve ob (length (ostream_int v)) = Inr (p, ob1)"
    and "well_formed (output_buffer_commit (memcpy ob1 p (ostream_int v)) (length (ostream_int v)))"
    and "committed (output_buffer_commit (memcpy ob1 p (ostream_int v)) (length (ostream_int v)))
           = committed ob @ ostream_int v"
    using assms(2,3) by (rule emit)
  then show ?thesis
    using assms(1) by (simp add: generic_format_int_def Let_def)
qed

lemma generic_format_int_too_long:
  assumes "deref pformat = CHR ''d''" and "well_formed ob"
    and "pbuffer_end ob < length (ostream_int v)"
  shows "generic_format_int ob pformat v = Inl bad_alloc"
proof -
  have "\<exists>e. reserve ob (length (ostream_int v)) = Inl e"
    using assms(2,3) by (simp add: reserve_fails_iff)
  then have "reserve ob (length (ostream_int v)) = Inl bad_alloc"
    using reserve_error by blast
  then show ?thesis using assms(1) by (simp add: generic_format_int_def Let_def)
qed

text \<open>The digits written for a number denote that number.\<close>

lemma digit_value: "d < 10 \<Longrightarrow> of_char (''0123456789'' ! d) = (48::nat) + d"
proof -
  assume "d < 10"
  then have "d \<in> {0, 1, 2, 3, 4, 5, 6, 7, 8, 9}" by auto
  then show ?thesis by auto
qed

lemma decimal_value_decimal: "decimal_value (decimal n) = n"
proof (induction n rule: decimal.induct)
  case (1 n)
  show ?case
  proof (cases "n < 10")
    case True
    then show ?thesis by (simp add: decimal.simps [of n] digit_value)
  next
    case False
    have "n mod 10 < 10" by simp
    then have "of_char (''0123456789'' ! (n mod 10)) = (48::nat) + n mod 10"
      by (rule digit_value)
    then show ?thesis
      using False "1.IH" by (simp add: decimal.simps [of n])
  qed
qed

text \<open>
  C8: for every integer value and every specifier character other than \<^verbatim>\<open>d\<close> (also \<^verbatim>\<open>x\<close>,
  \<^verbatim>\<open>b\<close> and the terminating NUL), the integer format operation returns \<open>False\<close> and leaves
  the format pointer and the output buffer as they are. For \<^verbatim>\<open>d\<close>, in a well-formed output
  buffer that can hold the digits, it writes the decimal representation of the value,
  commits it, advances the format pointer by one and returns \<open>True\<close>; when the digits are
  longer than the whole buffer, \<^verbatim>\<open>reserve\<close> throws \<^verbatim>\<open>std::bad_alloc\<close>.
\<close>

theorem generic_format_int_decimal_only:
  "(deref pformat \<noteq> CHR ''d'' \<longrightarrow>
      generic_format_int ob pformat v = Inr (False, pformat, ob)) \<and>
   (deref pformat = CHR ''d'' \<and> well_formed ob \<and> length (ostream_int v) \<le> pbuffer_end ob \<longrightarrow>
      pformat = CHR ''d'' # tl pformat \<and>
      (\<exists>ob'. generic_format_int ob pformat v = Inr (True, tl pformat, ob') \<and>
         well_formed ob' \<and> committed ob' = committed ob @ ostream_int v)) \<and>
   (deref pformat = CHR ''d'' \<and> well_formed ob \<and> pbuffer_end ob < length (ostream_int v) \<longrightarrow>
      generic_format_int ob pformat v = Inl bad_alloc)"
  using generic_format_int_other [of pformat ob v] generic_format_int_d [of pformat ob v]
    generic_format_int_too_long [of pformat ob v] deref_d [of pformat]
  by blast

theorem generic_format_int_decimal_only_witness:
  "generic_format_int d_buffer ''x'' 255 = Inr (False, ''x'', d_buffer) \<and>
   generic_format_int d_buffer ''b'' 5 = Inr (False, ''b'', d_buffer) \<and>
   ostream_int (- 42) = ''-42'' \<and>
   (\<exists>ob'. generic_format_int d_buffer ''d rest'' (- 42) = Inr (True, '' rest'', ob') \<and>
      committed ob' = ''-42'') \<and>
   generic_format_int d_buffer ''d'' 1234567890 = Inl bad_alloc"
proof -
  have w: "well_formed d_buffer" "pbuffer_end d_buffer = 8" "committed d_buffer = []"
    by (simp_all add: d_buffer_def output_buffer_ctor_def well_formed_def committed_def
        handed_def pending_def)
  have s: "ostream_int (- 42) = ''-42''" "ostream_int 1234567890 = ''1234567890''"
    by (simp_all add: ostream_int_def decimal.simps)
  have 1: "generic_format_int d_buffer ''x'' 255 = Inr (False, ''x'', d_buffer)"
    using generic_format_int_decimal_only [of "''x''" d_buffer 255] by (simp add: deref_def)
  have 2: "generic_format_int d_buffer ''b'' 5 = Inr (False, ''b'', d_buffer)"
    using generic_format_int_decimal_only [of "''b''" d_buffer 5] by (simp add: deref_def)
  have 3: "\<exists>ob'. generic_format_int d_buffer ''d rest'' (- 42) = Inr (True, '' rest'', ob') \<and>
      committed ob' = ''-42''"
    using generic_format_int_decimal_only [of "''d rest''" d_buffer "- 42"] w
    by (auto simp: deref_def s)
  have 4: "generic_format_int d_buffer ''d'' 1234567890 = Inl bad_alloc"
    using generic_format_int_decimal_only [of "''d''" d_buffer 1234567890] w
    by (simp add: deref_def s)
  show ?thesis using 1 2 3 4 s by simp
qed

lemma strchr_None:
  "strchr s CHR ''%'' = None \<Longrightarrow> literal_output s = s \<and> specifier s = None"
  by (induction s rule: literal_output.induct) (auto split: if_splits)

lemma strchr_Some:
  "strchr s CHR ''%'' = Some r \<Longrightarrow>
     \<exists>pre t. s = pre @ CHR ''%'' # t \<and> r = CHR ''%'' # t \<and> CHR ''%'' \<notin> set pre"
proof (induction s)
  case Nil
  then show ?case by simp
next
  case (Cons x s)
  show ?case
  proof (cases "x = CHR ''%''")
    case True
    with Cons.prems have "x # s = [] @ CHR ''%'' # s \<and> r = CHR ''%'' # s" by simp
    then show ?thesis by (metis empty_iff empty_set)
  next
    case False
    with Cons obtain pre t where "s = pre @ CHR ''%'' # t" "r = CHR ''%'' # t"
      "CHR ''%'' \<notin> set pre" by auto
    with False have "x # s = (x # pre) @ CHR ''%'' # t \<and> r = CHR ''%'' # t \<and>
      CHR ''%'' \<notin> set (x # pre)" by simp
    then show ?thesis by blast
  qed
qed

lemma walk_literal:
  "CHR ''%'' \<noteq> x \<Longrightarrow>
     literal_output (x # s) = x # literal_output s \<and> specifier (x # s) = specifier s"
  by (cases s) auto

lemma walk_single:
  "CHR ''%'' \<notin> set pre \<Longrightarrow> deref t \<noteq> CHR ''%'' \<Longrightarrow>
     literal_output (pre @ CHR ''%'' # t) = pre \<and> specifier (pre @ CHR ''%'' # t) = Some t"
proof (induction pre)
  case Nil
  then show ?case by (cases t) (simp_all add: deref_def)
next
  case (Cons x pre)
  then show ?case by (simp add: walk_literal)
qed

lemma walk_doubled:
  "CHR ''%'' \<notin> set pre \<Longrightarrow>
     literal_output (pre @ CHR ''%'' # CHR ''%'' # u) = pre @ CHR ''%'' # literal_output u \<and>
     specifier (pre @ CHR ''%'' # CHR ''%'' # u) = specifier u"
proof (induction pre)
  case Nil
  then show ?case by simp
next
  case (Cons x pre)
  then show ?case by (simp add: walk_literal)
qed

lemma append_percent_ok:
  assumes "well_formed ob" and "1 \<le> pbuffer_end ob"
  obtains ob' where "append_percent ob = Inr ob'" and "well_formed ob'"
    and "committed ob' = committed ob @ [CHR ''%'']" and "pbuffer_end ob' = pbuffer_end ob"
proof -
  have l: "length [CHR ''%''] \<le> pbuffer_end ob" using assms(2) by simp
  obtain p ob1 where "reserve ob (length [CHR ''%'']) = Inr (p, ob1)"
    and "well_formed (output_buffer_commit (memcpy ob1 p [CHR ''%'']) (length [CHR ''%'']))"
    and "committed (output_buffer_commit (memcpy ob1 p [CHR ''%'']) (length [CHR ''%'']))
           = committed ob @ [CHR ''%'']"
    and "pbuffer_end (output_buffer_commit (memcpy ob1 p [CHR ''%'']) (length [CHR ''%'']))
           = pbuffer_end ob"
    using assms(1) l by (rule emit)
  then show ?thesis
    by (intro that [of "output_buffer_commit (memcpy ob1 p [CHR ''%'']) 1"])
      (simp_all add: append_percent_def)
qed

lemma next_specifier_ok:
  "well_formed ob \<Longrightarrow> length pformat \<le> pbuffer_end ob \<Longrightarrow>
     \<exists>ob'. next_specifier ob pformat = Inr (specifier pformat, ob') \<and> well_formed ob' \<and>
            committed ob' = committed ob @ literal_output pformat"
proof (induction pformat arbitrary: ob rule: length_induct)
  case (1 pformat)
  show ?case
  proof (cases "strchr pformat CHR ''%''")
    case None
    obtain ob' where "formatter_format ob pformat = Inr ob'" "well_formed ob'"
      "committed ob' = committed ob @ pformat"
      using "1.prems" by (rule formatter_format_ok)
    then show ?thesis
      using None strchr_None [OF None] by (simp add: next_specifier.simps [of ob pformat])
  next
    case (Some pspecifier)
    then obtain pre t where split: "pformat = pre @ CHR ''%'' # t"
      "pspecifier = CHR ''%'' # t" "CHR ''%'' \<notin> set pre"
      using strchr_Some by blast
    have len: "length pformat - length pspecifier = length pre"
      and tk: "take (length pre) pformat = pre" and tlp: "tl pspecifier = t"
      using split by simp_all
    have "length pre \<le> pbuffer_end ob" using "1.prems"(2) split(1) by simp
    with "1.prems"(1) obtain p ob1 where r: "reserve ob (length pre) = Inr (p, ob1)"
      and w2: "well_formed (output_buffer_commit (memcpy ob1 p pre) (length pre))"
      and c2: "committed (output_buffer_commit (memcpy ob1 p pre) (length pre))
                 = committed ob @ pre"
      and e2: "pbuffer_end (output_buffer_commit (memcpy ob1 p pre) (length pre))
                 = pbuffer_end ob"
      by (rule emit)
    let ?ob2 = "output_buffer_commit (memcpy ob1 p pre) (length pre)"
    show ?thesis
    proof (cases "deref t \<noteq> CHR ''%''")
      case True
      have "next_specifier ob pformat = Inr (Some t, ?ob2)"
        using Some r True
        by (simp add: next_specifier.simps [of ob pformat] len tk tlp Let_def)
      then show ?thesis
        using walk_single [OF split(3) True] split(1) w2 c2 by simp
    next
      case False
      then obtain u where t: "t = CHR ''%'' # u"
        by (cases t) (simp_all add: deref_def)
      have "1 \<le> pbuffer_end ?ob2" using "1.prems"(2) split(1) e2 by simp
      with w2 obtain ob3 where a: "append_percent ?ob2 = Inr ob3" "well_formed ob3"
        "committed ob3 = committed ?ob2 @ [CHR ''%'']" "pbuffer_end ob3 = pbuffer_end ?ob2"
        by (rule append_percent_ok)
      have "length u < length pformat" "length u \<le> pbuffer_end ob3"
        using split(1) t "1.prems"(2) a(4) e2 by simp_all
      with "1.IH" a(2) obtain ob' where
        n: "next_specifier ob3 u = Inr (specifier u, ob')" "well_formed ob'"
        "committed ob' = committed ob3 @ literal_output u"
        by blast
      have "next_specifier ob pformat = next_specifier ob3 u"
        using Some r False a(1)
        by (simp add: next_specifier.simps [of ob pformat] len tk tlp t Let_def)
      then show ?thesis
        using n a(3) c2 walk_doubled [OF split(3), of u] split(1) t by simp
    qed
  qed
qed

text \<open>
  C9: for every format string that is no longer than a well-formed output buffer,
  \<^verbatim>\<open>next_specifier\<close> commits to the output buffer the literal bytes up to the first undoubled
  \<^verbatim>\<open>%\<close>, with each doubled \<^verbatim>\<open>%%\<close> collapsed into one \<^verbatim>\<open>%\<close>; it returns the pointer to the
  character behind that undoubled \<^verbatim>\<open>%\<close> when there is one, and null, after copying the
  remaining literal bytes, when there is none.
\<close>

theorem next_specifier_walk:
  assumes "well_formed ob" and "length pformat \<le> pbuffer_end ob"
  shows "\<exists>ob'. next_specifier ob pformat = Inr (specifier pformat, ob') \<and>
           well_formed ob' \<and> committed ob' = committed ob @ literal_output pformat"
  using assms by (rule next_specifier_ok)

theorem next_specifier_walk_witness:
  "well_formed walk_buffer \<and>
   (\<exists>ob'. next_specifier walk_buffer ''50%% of %d'' = Inr (Some ''d'', ob') \<and>
      committed ob' = ''50% of '') \<and>
   (\<exists>ob'. next_specifier walk_buffer ''100%% done'' = Inr (None, ob') \<and>
      committed ob' = ''100% done'')"
proof -
  have w: "well_formed walk_buffer" "committed walk_buffer = []"
    by (simp_all add: walk_buffer_def output_buffer_ctor_def well_formed_def committed_def
        handed_def pending_def)
  have l: "length ''50%% of %d'' \<le> pbuffer_end walk_buffer"
    "length ''100%% done'' \<le> pbuffer_end walk_buffer"
    by (simp_all add: walk_buffer_def output_buffer_ctor_def)
  have 1: "\<exists>ob'. next_specifier walk_buffer ''50%% of %d'' = Inr (Some ''d'', ob') \<and>
      committed ob' = ''50% of ''"
    using next_specifier_walk [OF w(1) l(1)] by (auto simp: w(2))
  have 2: "\<exists>ob'. next_specifier walk_buffer ''100%% done'' = Inr (None, ob') \<and>
      committed ob' = ''100% done''"
    using next_specifier_walk [OF w(1) l(2)] by (auto simp: w(2))
  show ?thesis using w(1) 1 2 by simp
qed










section \<open>Results about the file writer\<close>

lemma errno_switch:
  "(case e of
      EFBIG \<Rightarrow> Inr ERROR_GIVE_UP
    | EIO \<Rightarrow> Inr ERROR_GIVE_UP
    | EPIPE \<Rightarrow> Inr ERROR_GIVE_UP
    | ERANGE \<Rightarrow> Inr ERROR_GIVE_UP
    | ECONNRESET \<Rightarrow> Inr ERROR_GIVE_UP
    | EINVAL \<Rightarrow> Inr ERROR_GIVE_UP
    | ENXIO \<Rightarrow> Inr ERROR_GIVE_UP
    | EACCES \<Rightarrow> Inr ERROR_GIVE_UP
    | ENETDOWN \<Rightarrow> Inr ERROR_GIVE_UP
    | ENETUNREACH \<Rightarrow> Inr ERROR_GIVE_UP
    | ENOSPC \<Rightarrow> Inr ERROR_TRY_LATER
    | _ \<Rightarrow> Inl (runtime_error ''cannot write to file descriptor'')) = spec_write_result e"
  by (cases e) (simp_all add: spec_write_result_def give_up_errnos_def)

lemma spec_write_result_not_success: "spec_write_result e \<noteq> Inr SUCCESS"
  by (simp add: spec_write_result_def)

lemma file_writer_write_eq:
  "file_writer_write calls bytes st =
     (case write_loop calls bytes st of
        None \<Rightarrow> None
      | Some (rest, file, errno) \<Rightarrow>
          Some (if rest = [] then Inr SUCCESS else spec_write_result errno, file, errno))"
  by (simp add: file_writer_write_def errno_switch split: option.splits)

lemma write_loop_empty: "write_loop calls [] st = Some ([], st)"
  by (cases calls) simp_all

lemma write_loop_keeps:
  "write_loop calls bytes (f, e) = Some (rest, f', e') \<Longrightarrow>
     f' @ rest = f @ bytes \<and> length rest \<le> length bytes"
proof (induction calls arbitrary: bytes f e)
  case Nil
  then show ?case by (simp split: if_splits)
next
  case (Cons r calls)
  show ?case
  proof (cases "bytes = []")
    case True
    with Cons.prems show ?thesis by simp
  next
    case False
    show ?thesis
    proof (cases r)
      case (Wrote n)
      with False Cons.prems have
        "write_loop calls (drop (min n (length bytes)) bytes)
           (f @ take (min n (length bytes)) bytes, e) = Some (rest, f', e')"
        by (simp add: Let_def)
      from Cons.IH [OF this] show ?thesis by auto
    next
      case (Failed x)
      show ?thesis
      proof (cases "x = EINTR")
        case True
        with False Failed Cons.prems have "write_loop calls bytes (f, x) = Some (rest, f', e')"
          by simp
        from Cons.IH [OF this] show ?thesis .
      next
        case False
        with \<open>bytes \<noteq> []\<close> Failed Cons.prems show ?thesis by simp
      qed
    qed
  qed
qed

lemma write_loop_failed:
  "write_loop calls bytes st = Some (rest, f', e') \<Longrightarrow> rest \<noteq> [] \<Longrightarrow>
     e' \<noteq> EINTR \<and> Failed e' \<in> set calls"
proof (induction calls arbitrary: bytes st)
  case Nil
  then show ?case by (simp split: if_splits)
next
  case (Cons r calls)
  show ?case
  proof (cases "bytes = []")
    case True
    with Cons.prems show ?thesis by simp
  next
    case False
    show ?thesis
    proof (cases r)
      case (Wrote n)
      with False Cons.prems have
        "write_loop calls (drop (min n (length bytes)) bytes)
           (fst st @ take (min n (length bytes)) bytes, snd st) = Some (rest, f', e')"
        by (simp add: Let_def)
      from Cons.IH [OF this Cons.prems(2)] show ?thesis by simp
    next
      case (Failed x)
      show ?thesis
      proof (cases "x = EINTR")
        case True
        with False Failed Cons.prems have
          "write_loop calls bytes (fst st, x) = Some (rest, f', e')"
          by simp
        from Cons.IH [OF this Cons.prems(2)] show ?thesis by simp
      next
        case False
        with \<open>bytes \<noteq> []\<close> Failed Cons.prems show ?thesis by auto
      qed
    qed
  qed
qed

lemma write_loop_returns:
  "length bytes \<le> capacity_of calls \<or> (\<exists>e. e \<noteq> EINTR \<and> Failed e \<in> set calls) \<Longrightarrow>
     \<exists>res. write_loop calls bytes st = Some res"
proof (induction calls arbitrary: bytes st)
  case Nil
  then show ?case by simp
next
  case (Cons r calls)
  show ?case
  proof (cases "bytes = []")
    case True
    then show ?thesis by simp
  next
    case False
    show ?thesis
    proof (cases r)
      case (Wrote n)
      have "length (drop (min n (length bytes)) bytes) \<le> capacity_of calls \<or>
            (\<exists>e. e \<noteq> EINTR \<and> Failed e \<in> set calls)"
        using Cons.prems Wrote by auto
      from Cons.IH [OF this] show ?thesis using False Wrote by (simp add: Let_def)
    next
      case (Failed x)
      show ?thesis
      proof (cases "x = EINTR")
        case True
        have "length bytes \<le> capacity_of calls \<or> (\<exists>e. e \<noteq> EINTR \<and> Failed e \<in> set calls)"
          using Cons.prems Failed True by auto
        from Cons.IH [OF this] show ?thesis using \<open>bytes \<noteq> []\<close> Failed True by simp
      next
        case False
        then show ?thesis using \<open>bytes \<noteq> []\<close> Failed by simp
      qed
    qed
  qed
qed

lemma file_writer_write_result:
  assumes "file_writer_write calls bytes (f, e) = Some (r, f', e')"
  shows "(r = Inr SUCCESS \<longleftrightarrow> f' = f @ bytes) \<and>
         (\<exists>k \<le> length bytes. f' = f @ take k bytes) \<and>
         (r \<noteq> Inr SUCCESS \<longrightarrow>
            e' \<noteq> EINTR \<and> Failed e' \<in> set calls \<and> r = spec_write_result e')"
proof -
  from assms obtain rest where
    l: "write_loop calls bytes (f, e) = Some (rest, f', e')"
    and r: "r = (if rest = [] then Inr SUCCESS else spec_write_result e')"
    by (auto simp: file_writer_write_eq split: option.splits)
  have k: "f' @ rest = f @ bytes" and le: "length rest \<le> length bytes"
    using write_loop_keeps [OF l] by simp_all
  then have "length f' + length rest = length f + length bytes"
    by (metis length_append)
  then have len: "length f' = length f + (length bytes - length rest)"
    using le by simp
  have f': "f' = f @ take (length bytes - length rest) bytes"
  proof -
    have "f' = take (length f') (f' @ rest)" by simp
    also have "\<dots> = take (length f') (f @ bytes)" by (simp only: k)
    also have "\<dots> = f @ take (length bytes - length rest) bytes" unfolding len by simp
    finally show ?thesis .
  qed
  have 1: "r = Inr SUCCESS \<longleftrightarrow> f' = f @ bytes"
    using r k by (auto simp: spec_write_result_not_success)
  have 2: "\<exists>k \<le> length bytes. f' = f @ take k bytes"
    using f' by (intro exI [of _ "length bytes - length rest"]) simp
  have 3: "r \<noteq> Inr SUCCESS \<longrightarrow>
      e' \<noteq> EINTR \<and> Failed e' \<in> set calls \<and> r = spec_write_result e'"
    using r write_loop_failed [OF l] by auto
  show ?thesis using 1 2 3 by blast
qed

text \<open>
  C7: \<^verbatim>\<open>file_writer::write\<close> returns \<^verbatim>\<open>SUCCESS\<close> exactly when all \<open>count\<close> bytes have been
  written to the file. Inside the call it resumes after \<^verbatim>\<open>EINTR\<close> and after a partial
  write. When a system call fails with another error number before all bytes are written,
  each of \<^verbatim>\<open>EFBIG\<close>, \<^verbatim>\<open>EIO\<close>, \<^verbatim>\<open>EPIPE\<close>, \<^verbatim>\<open>ERANGE\<close>, \<^verbatim>\<open>ECONNRESET\<close>, \<^verbatim>\<open>EINVAL\<close>,
  \<^verbatim>\<open>ENXIO\<close>, \<^verbatim>\<open>EACCES\<close>, \<^verbatim>\<open>ENETDOWN\<close>, \<^verbatim>\<open>ENETUNREACH\<close> yields \<^verbatim>\<open>ERROR_GIVE_UP\<close>,
  \<^verbatim>\<open>ENOSPC\<close> yields \<^verbatim>\<open>ERROR_TRY_LATER\<close>, and any other error number throws. The call
  returns whenever the system calls take all the bytes or one of them fails with an error
  number other than \<^verbatim>\<open>EINTR\<close>.
\<close>

theorem file_writer_write_maps_errno:
  "(file_writer_write calls [] (f, e) = Some (Inr SUCCESS, f, e)) \<and>
   (bytes \<noteq> [] \<longrightarrow>
      file_writer_write (Failed EINTR # calls) bytes (f, e)
        = file_writer_write calls bytes (f, EINTR)) \<and>
   (bytes \<noteq> [] \<longrightarrow>
      file_writer_write (Wrote n # calls) bytes (f, e)
        = file_writer_write calls (drop n bytes) (f @ take n bytes, e)) \<and>
   (bytes \<noteq> [] \<and> x \<in> give_up_errnos \<longrightarrow>
      file_writer_write (Failed x # calls) bytes (f, e) = Some (Inr ERROR_GIVE_UP, f, x)) \<and>
   (bytes \<noteq> [] \<longrightarrow>
      file_writer_write (Failed ENOSPC # calls) bytes (f, e)
        = Some (Inr ERROR_TRY_LATER, f, ENOSPC)) \<and>
   (bytes \<noteq> [] \<and> x \<notin> give_up_errnos \<and> x \<noteq> ENOSPC \<and> x \<noteq> EINTR \<longrightarrow>
      file_writer_write (Failed x # calls) bytes (f, e)
        = Some (Inl (runtime_error ''cannot write to file descriptor''), f, x)) \<and>
   (file_writer_write calls bytes (f, e) = Some (r, f', e') \<longrightarrow>
      (r = Inr SUCCESS \<longleftrightarrow> f' = f @ bytes) \<and>
      (\<exists>k \<le> length bytes. f' = f @ take k bytes) \<and>
      (r \<noteq> Inr SUCCESS \<longrightarrow>
         e' \<noteq> EINTR \<and> Failed e' \<in> set calls \<and> r = spec_write_result e')) \<and>
   (length bytes \<le> capacity_of calls \<or> (\<exists>y. y \<noteq> EINTR \<and> Failed y \<in> set calls) \<longrightarrow>
      (\<exists>res. file_writer_write calls bytes (f, e) = Some res))"
proof -
  have 1: "file_writer_write calls [] (f, e) = Some (Inr SUCCESS, f, e)"
    by (simp add: file_writer_write_eq write_loop_empty)
  have 2: "bytes \<noteq> [] \<Longrightarrow> file_writer_write (Failed EINTR # calls) bytes (f, e)
        = file_writer_write calls bytes (f, EINTR)"
    by (simp add: file_writer_write_eq)
  have 3: "bytes \<noteq> [] \<Longrightarrow> file_writer_write (Wrote n # calls) bytes (f, e)
        = file_writer_write calls (drop n bytes) (f @ take n bytes, e)"
    by (simp add: file_writer_write_eq Let_def min_def)
  have 4: "bytes \<noteq> [] \<Longrightarrow> x \<noteq> EINTR \<Longrightarrow>
      file_writer_write (Failed x # calls) bytes (f, e) = Some (spec_write_result x, f, x)"
    by (simp add: file_writer_write_eq)
  have g: "EINTR \<notin> give_up_errnos" "ENOSPC \<notin> give_up_errnos"
    by (simp_all add: give_up_errnos_def)
  have 5: "file_writer_write calls bytes (f, e) = Some (r, f', e') \<Longrightarrow>
      (r = Inr SUCCESS \<longleftrightarrow> f' = f @ bytes) \<and>
      (\<exists>k \<le> length bytes. f' = f @ take k bytes) \<and>
      (r \<noteq> Inr SUCCESS \<longrightarrow>
         e' \<noteq> EINTR \<and> Failed e' \<in> set calls \<and> r = spec_write_result e')"
    by (rule file_writer_write_result)
  have 6: "length bytes \<le> capacity_of calls \<or> (\<exists>y. y \<noteq> EINTR \<and> Failed y \<in> set calls) \<Longrightarrow>
      \<exists>res. file_writer_write calls bytes (f, e) = Some res"
    using write_loop_returns [of bytes calls "(f, e)"]
    by (auto simp: file_writer_write_eq)
  have g1: "bytes \<noteq> [] \<and> x \<in> give_up_errnos \<longrightarrow>
      file_writer_write (Failed x # calls) bytes (f, e) = Some (Inr ERROR_GIVE_UP, f, x)"
  proof (intro impI, elim conjE)
    assume b: "bytes \<noteq> []" and x: "x \<in> give_up_errnos"
    then have "x \<noteq> EINTR" using g by auto
    from 4 [OF b this] show
      "file_writer_write (Failed x # calls) bytes (f, e) = Some (Inr ERROR_GIVE_UP, f, x)"
      using x by (simp add: spec_write_result_def)
  qed
  have g2: "bytes \<noteq> [] \<longrightarrow> file_writer_write (Failed ENOSPC # calls) bytes (f, e)
        = Some (Inr ERROR_TRY_LATER, f, ENOSPC)"
    by (simp add: file_writer_write_eq spec_write_result_def g)
  have g3: "bytes \<noteq> [] \<and> x \<notin> give_up_errnos \<and> x \<noteq> ENOSPC \<and> x \<noteq> EINTR \<longrightarrow>
      file_writer_write (Failed x # calls) bytes (f, e)
        = Some (Inl (runtime_error ''cannot write to file descriptor''), f, x)"
    using 4 by (auto simp: spec_write_result_def)
  show ?thesis
    using 1 2 3 g1 g2 g3 5 6 by blast
qed

theorem file_writer_write_maps_errno_witness:
  "file_writer_write [Wrote 2, Failed EINTR, Wrote 9] ''hello'' (''log: '', EIO)
     = Some (Inr SUCCESS, ''log: hello'', EINTR) \<and>
   file_writer_write [Wrote 2, Failed ENOSPC] ''hello'' (''log: '', EIO)
     = Some (Inr ERROR_TRY_LATER, ''log: he'', ENOSPC) \<and>
   file_writer_write [Failed EPIPE] ''hello'' (''log: '', EIO)
     = Some (Inr ERROR_GIVE_UP, ''log: '', EPIPE) \<and>
   file_writer_write [Failed (Other_errno 9)] ''hello'' (''log: '', EIO)
     = Some (Inl (runtime_error ''cannot write to file descriptor''), ''log: '', Other_errno 9)"
proof -
  have g: "EPIPE \<in> give_up_errnos" "Other_errno 9 \<notin> give_up_errnos"
    by (simp_all add: give_up_errnos_def)
  have 1: "file_writer_write [Wrote 2, Failed EINTR, Wrote 9] ''hello'' (''log: '', EIO)
     = Some (Inr SUCCESS, ''log: hello'', EINTR)"
    using file_writer_write_maps_errno [of "[Failed EINTR, Wrote 9]" "''log: ''" EIO "''hello''" 2]
      file_writer_write_maps_errno [of "[Wrote 9]" "''log: he''" EIO "''llo''"]
      file_writer_write_maps_errno [of "[]" "''log: he''" EINTR "''llo''" 9]
      file_writer_write_maps_errno [of "[]" "''log: hello''" EINTR]
    by simp
  have 2: "file_writer_write [Wrote 2, Failed ENOSPC] ''hello'' (''log: '', EIO)
     = Some (Inr ERROR_TRY_LATER, ''log: he'', ENOSPC)"
    using file_writer_write_maps_errno [of "[Failed ENOSPC]" "''log: ''" EIO "''hello''" 2]
      file_writer_write_maps_errno [of "[]" "''log: he''" EIO "''llo''"]
    by simp
  have 3: "file_writer_write [Failed EPIPE] ''hello'' (''log: '', EIO)
     = Some (Inr ERROR_GIVE_UP, ''log: '', EPIPE)"
    using file_writer_write_maps_errno [of "[]" "''log: ''" EIO "''hello''" _ EPIPE] g
    by simp
  have 4: "file_writer_write [Failed (Other_errno 9)] ''hello'' (''log: '', EIO)
     = Some (Inl (runtime_error ''cannot write to file descriptor''), ''log: '', Other_errno 9)"
    using file_writer_write_maps_errno [of "[]" "''log: ''" EIO "''hello''" _ "Other_errno 9"] g
    by simp
  show ?thesis using 1 2 3 4 by simp
qed


end
